theory Spec2Isabelle
  imports Main
begin

section \<open>Values, identifiers and faults\<close>

text \<open>
  The container keys every registry by arbitrary JavaScript values (\<open>Map<any, any>\<close>), so
  identifiers, concretes and instances share one type of values. A class constructor is a
  \<open>VCls\<close> token, an interface symbol a \<open>VSym\<close>, a plain user function a \<open>VFun\<close> (looked up
  in the environment), the closure returned by \<open>_getClosure(abstract, concrete)\<close> a
  \<open>VClosure\<close>, and an object created with \<open>new\<close> a \<open>VObj\<close> carrying its allocation number
  (object identity), its constructor and the constructor arguments. \<open>VMapOf k\<close> is the native
  inner map that the nested contextual map keeps under the first key \<open>k\<close>. Numbers are
  integers; \<open>NaN\<close> and fractions are outside the model.
\<close>

datatype val =
    VUndefined
  | VNull
  | VBool bool
  | VNum int
  | VStr string
  | VSym string
  | VCls string
  | VFun nat
  | VClosure val val
  | VObj nat val "val list"
  | VMapOf val

text \<open>
  Every \<open>BindingResolutionError\<close> of the source is one class; the three places that throw it
  differ only in the message, kept here as the \<open>reason\<close>. \<open>RangeError\<close> is the exhausted call
  stack of an unbounded recursion, \<open>TypeError\<close> the engine's own fault (calling a class
  without \<open>new\<close>, \<open>instanceof\<close> with a right-hand side that is not callable), and
  \<open>UserError\<close> stands for whatever a user function throws.
\<close>

datatype reason =
    NotInstantiable val "val list"
  | UnresolvablePrimitive string
  | MissingParameterType

datatype error =
    BindingError
  | LogicError
  | BindingResolutionError reason
  | EntryNotFoundError
  | RangeError
  | TypeError
  | UserError nat

text \<open>Parameter overrides are an array or an object with named entries (\<open>any[] | object\<close>).\<close>

datatype params = PArr "val list" | PObj "(string \<times> val) list"

subsection \<open>Helpers of \<open>Support/helpers\<close> and \<open>Support/Arr\<close>\<close>

definition isUndefined :: "val \<Rightarrow> bool" where
  "isUndefined v = (v = VUndefined)"

definition isNullOrUndefined :: "val \<Rightarrow> bool" where
  "isNullOrUndefined v = (v = VUndefined \<or> v = VNull)"

text \<open>
  Modelled from the spec: \<open>isInstantiable\<close> of \<open>Support/helpers\<close> is not among the sources;
  the spec calls an identifier constructible when it is a constructible-type token, which
  here is a class constructor.
\<close>

fun isInstantiable :: "val \<Rightarrow> bool" where
  "isInstantiable (VCls c) = True"
| "isInstantiable v = False"

text \<open>\<open>x instanceof Function\<close>: classes, plain functions and closures are functions.\<close>

fun instanceofFunction :: "val \<Rightarrow> bool" where
  "instanceofFunction (VCls c) = True"
| "instanceofFunction (VFun f) = True"
| "instanceofFunction (VClosure a c) = True"
| "instanceofFunction v = False"

text \<open>
  Modelled from the spec: \<open>equals\<close> of \<open>Support/helpers\<close> is not among the sources; string
  identifiers compare by value and tokens by identity, which is equality of values here.
\<close>

definition equals :: "val \<Rightarrow> val \<Rightarrow> bool" where
  "equals a b = (a = b)"

text \<open>JavaScript truthiness, as used by \<open>if (concrete)\<close> and \<open>!!x\<close>.\<close>

fun truthy :: "val \<Rightarrow> bool" where
  "truthy VUndefined = False"
| "truthy VNull = False"
| "truthy (VBool b) = b"
| "truthy (VNum i) = (i \<noteq> 0)"
| "truthy (VStr s) = (s \<noteq> [])"
| "truthy v = True"

text \<open>\<open>Arr.empty\<close>: no elements, or no own keys.\<close>

fun Arr_empty :: "params \<Rightarrow> bool" where
  "Arr_empty (PArr xs) = (xs = [])"
| "Arr_empty (PObj kvs) = (kvs = [])"

text \<open>\<open>Arr.last\<close> without a callback: the last element, or \<open>undefined\<close> for an empty array.\<close>

definition Arr_last :: "val list \<Rightarrow> val" where
  "Arr_last items = (if items = [] then VUndefined else last items)"

section \<open>The container's state\<close>

record binding =
  b_concrete :: val
  b_shared :: bool

text \<open>
  What a callback was called with: each call of a callback is recorded in a log, before
  the callback runs.
\<close>

datatype event =
    Rebound nat val
  | Resolving nat val

text \<open>
  The fields of \<open>Container\<close>. \<open>_buildStack\<close> and \<open>_with\<close> are arrays used as stacks:
  \<open>push\<close> appends, \<open>pop\<close> drops the last element. \<open>next_id\<close> numbers the objects
  created with \<open>new\<close>, \<open>cb_log\<close> lists the callback calls made so far, and \<open>thrown\<close>
  counts the calls of \<open>make\<close> and \<open>build\<close> that ended in a throw. The contextual map is
  the two-level structure that \<open>NestedMap.set([concrete, abstract], impl)\<close> builds.
\<close>

record container =
  contextual :: "val \<rightharpoonup> (val \<rightharpoonup> val)"
  resolved_map :: "val \<rightharpoonup> bool"
  bindings :: "val \<rightharpoonup> binding"
  instances :: "val \<rightharpoonup> val"
  aliases :: "val \<rightharpoonup> val"
  abstractAliases :: "val \<rightharpoonup> val list"
  extenders :: "val \<rightharpoonup> nat list"
  tags :: "string \<rightharpoonup> val list"
  buildStack :: "val list"
  with_frames :: "params list"
  reboundCallbacks :: "val \<rightharpoonup> nat list"
  globalResolvingCallbacks :: "nat list"
  globalAfterResolvingCallbacks :: "nat list"
  resolvingCallbacks :: "(val \<times> nat list) list"
  afterResolvingCallbacks :: "(val \<times> nat list) list"
  next_id :: nat
  cb_log :: "event list"
  thrown :: nat

definition new_container :: container where
  "new_container = \<lparr>contextual = Map.empty, resolved_map = Map.empty, bindings = Map.empty,
     instances = Map.empty, aliases = Map.empty, abstractAliases = Map.empty,
     extenders = Map.empty, tags = Map.empty, buildStack = [], with_frames = [],
     reboundCallbacks = Map.empty, globalResolvingCallbacks = [],
     globalAfterResolvingCallbacks = [], resolvingCallbacks = [],
     afterResolvingCallbacks = [], next_id = 0, cb_log = [], thrown = 0\<rparr>"

section \<open>Aliases\<close>

definition isAlias :: "container \<Rightarrow> val \<Rightarrow> bool" where
  "isAlias s name = (aliases s name \<noteq> None)"

text \<open>\<open>Container.alias\<close>: both maps are written; nothing is checked.\<close>

definition Container_alias :: "container \<Rightarrow> val \<Rightarrow> val \<Rightarrow> container" where
  "Container_alias s abstract alias_name =
     (let s1 = s\<lparr>aliases := (aliases s)(alias_name \<mapsto> abstract)\<rparr>
      in s1\<lparr>abstractAliases := (abstractAliases s1)(abstract \<mapsto>
            (case abstractAliases s1 abstract of
               Some arr \<Rightarrow> arr @ [alias_name]
             | None \<Rightarrow> [alias_name]))\<rparr>)"

text \<open>
  \<open>Container.getAlias\<close> follows the alias edges by recursion. The recursion has no bound in
  the source; the first argument is the call depth still available, and running out of it
  is the engine's \<open>RangeError\<close>.
\<close>

fun getAlias :: "nat \<Rightarrow> container \<Rightarrow> val \<Rightarrow> error + val" where
  "getAlias 0 s abstract = Inl RangeError"
| "getAlias (Suc n) s abstract =
     (case aliases s abstract of
        None \<Rightarrow> Inr abstract
      | Some target \<Rightarrow>
          if target = abstract then Inl LogicError
          else getAlias n s target)"

subsection \<open>The \<open>Aliaser\<close> class\<close>

record aliaser =
  al_aliases :: "val \<rightharpoonup> val"
  al_abstractAliases :: "val \<rightharpoonup> val list"

definition Aliaser_isAlias :: "aliaser \<Rightarrow> val \<Rightarrow> bool" where
  "Aliaser_isAlias s name = (al_aliases s name \<noteq> None)"

definition Aliaser_alias :: "aliaser \<Rightarrow> val \<Rightarrow> val \<Rightarrow> error + aliaser" where
  "Aliaser_alias s abstract alias_name =
     (if alias_name = abstract then Inl LogicError
      else
        let s1 = s\<lparr>al_aliases := (al_aliases s)(alias_name \<mapsto> abstract)\<rparr>
        in Inr (s1\<lparr>al_abstractAliases := (al_abstractAliases s1)(abstract \<mapsto>
              (case al_abstractAliases s1 abstract of
                 Some arr \<Rightarrow> arr @ [alias_name]
               | None \<Rightarrow> [alias_name]))\<rparr>))"

fun Aliaser_getAlias :: "nat \<Rightarrow> aliaser \<Rightarrow> val \<Rightarrow> error + val" where
  "Aliaser_getAlias 0 s abstract = Inl RangeError"
| "Aliaser_getAlias (Suc n) s abstract =
     (case al_aliases s abstract of
        None \<Rightarrow> Inr abstract
      | Some target \<Rightarrow> Aliaser_getAlias n s target)"

section \<open>Predicates on the registries\<close>

definition bound :: "container \<Rightarrow> val \<Rightarrow> bool" where
  "bound s abstract =
     (bindings s abstract \<noteq> None \<or> instances s abstract \<noteq> None \<or> isAlias s abstract)"

definition has :: "container \<Rightarrow> val \<Rightarrow> bool" where
  "has s ident = bound s ident"

definition resolved :: "nat \<Rightarrow> container \<Rightarrow> val \<Rightarrow> error + bool" where
  "resolved n s abstract =
     (case (if isAlias s abstract then getAlias n s abstract else Inr abstract) of
        Inl e \<Rightarrow> Inl e
      | Inr a \<Rightarrow> Inr (resolved_map s a \<noteq> None \<or> instances s a \<noteq> None))"

definition isShared :: "container \<Rightarrow> val \<Rightarrow> bool" where
  "isShared s abstract =
     (instances s abstract \<noteq> None
      \<or> (case bindings s abstract of Some b \<Rightarrow> b_shared b | None \<Rightarrow> False))"

definition unbind :: "container \<Rightarrow> val \<Rightarrow> container" where
  "unbind s abstract =
     (let s1 = s\<lparr>bindings := (bindings s)(abstract := None)\<rparr>;
          s2 = s1\<lparr>instances := (instances s1)(abstract := None)\<rparr>
      in s2\<lparr>resolved_map := (resolved_map s2)(abstract := None)\<rparr>)"

section \<open>Reflection and user code\<close>

text \<open>
  \<open>ReflectionParameter\<close> wraps a parameter descriptor: its name, its declared type and its
  default value. The declared type is builtin, a class, or an interface with the key of
  its designated implementation.
\<close>

datatype ptype = Builtin | ClassType val | InterfaceType val

record reflectionParameter =
  p_target :: val
  p_name :: string
  p_type :: ptype
  p_value :: val

definition getName :: "reflectionParameter \<Rightarrow> string" where
  "getName p = p_name p"

definition isBuiltin :: "reflectionParameter \<Rightarrow> bool" where
  "isBuiltin p = (p_type p = Builtin)"

definition isDefaultValueAvailable :: "reflectionParameter \<Rightarrow> bool" where
  "isDefaultValueAvailable p = (\<not> isNullOrUndefined (p_value p))"

definition getDefaultValue :: "reflectionParameter \<Rightarrow> val" where
  "getDefaultValue p = p_value p"

text \<open>
  Modelled from the spec: \<open>ReflectionClass\<close> is not among the sources. A reflector is made
  from an interface key or from a class; \<open>_resolveClass\<close> resolves the key of an interface
  and the class itself otherwise.
\<close>

datatype reflectionClass = FromInterface val | FromClass val

definition getClass :: "reflectionParameter \<Rightarrow> reflectionClass option" where
  "getClass p =
     (case p_type p of
        Builtin \<Rightarrow> None
      | InterfaceType k \<Rightarrow> Some (FromInterface k)
      | ClassType c \<Rightarrow> Some (FromClass c))"

fun makeTarget :: "reflectionClass \<Rightarrow> val" where
  "makeTarget (FromInterface k) = k"
| "makeTarget (FromClass c) = c"

text \<open>
  User code: a factory, an extender or a callback. It is handed the container, so it can
  look at it, call \<open>make\<close> and \<open>build\<close> on it, and go on with what the call returned
  or with the fault it caught (a handler that is not interested throws the fault again).
  In the end it returns a value or throws. It does not register or remove anything.
\<close>

datatype script =
    Return val
  | Throw error
  | Inspect "container \<Rightarrow> script"
  | CallMake val params "error + val \<Rightarrow> script"
  | CallBuild val "error + val \<Rightarrow> script"

text \<open>
  What the container takes from outside: whether the reflector of a concrete is
  instantiable and which constructor parameters it has; the user's functions, called
  with the parameter overrides (none when a function is called with the container
  alone), the extenders, called with the object, and the callbacks, called with the
  object; whether a user function has a prototype, and the instance-of relation of
  objects. A constructor called with \<open>new\<close> returns the new object and does nothing else.
\<close>

record env =
  reflect_instantiable :: "val \<Rightarrow> bool"
  reflect_parameters :: "val \<Rightarrow> reflectionParameter list"
  user_function :: "nat \<Rightarrow> params option \<Rightarrow> script"
  user_extender :: "nat \<Rightarrow> val \<Rightarrow> script"
  user_callback :: "nat \<Rightarrow> val \<Rightarrow> script"
  has_prototype :: "nat \<Rightarrow> bool"
  instanceOf :: "val \<Rightarrow> val \<Rightarrow> bool"

fun isBindingResolutionError :: "error \<Rightarrow> bool" where
  "isBindingResolutionError (BindingResolutionError r) = True"
| "isBindingResolutionError e = False"

section \<open>Contextual bindings\<close>

text \<open>
  \<open>NestedMap.has\<close> and \<open>NestedMap.get\<close> at a pair of keys \<open>[k1, k2]\<close>. \<open>Arr.wrap\<close> turns
  \<open>undefined\<close> and \<open>null\<close> into the empty key list, so nothing is found under such a first
  key. Both loops compare each key with the last one: when the two keys are equal they
  stop at the first level, and \<open>get\<close> hands back the inner map itself. The first key is the
  top of the build stack, a class or a symbol; the splitting of a string key at its dots
  is not modelled.
\<close>

definition NestedMap_has :: "(val \<rightharpoonup> (val \<rightharpoonup> val)) \<Rightarrow> val \<Rightarrow> val \<Rightarrow> bool" where
  "NestedMap_has m k1 k2 =
     (if isNullOrUndefined k1 then False
      else case m k1 of
             None \<Rightarrow> False
           | Some inner \<Rightarrow> if k1 = k2 then True else inner k2 \<noteq> None)"

definition NestedMap_get :: "(val \<rightharpoonup> (val \<rightharpoonup> val)) \<Rightarrow> val \<Rightarrow> val \<Rightarrow> val" where
  "NestedMap_get m k1 k2 =
     (if isNullOrUndefined k1 then VUndefined
      else case m k1 of
             None \<Rightarrow> VUndefined
           | Some inner \<Rightarrow>
               if k1 = k2 then VMapOf k1
               else (case inner k2 of None \<Rightarrow> VUndefined | Some v \<Rightarrow> v))"

definition findInContextualBindings :: "container \<Rightarrow> val \<Rightarrow> val" where
  "findInContextualBindings s abstract =
     (if NestedMap_has (contextual s) (Arr_last (buildStack s)) abstract
      then NestedMap_get (contextual s) (Arr_last (buildStack s)) abstract
      else VUndefined)"

text \<open>The loop of \<open>_getContextualConcrete\<close> over the aliases of the abstract.\<close>

fun findInAliases :: "container \<Rightarrow> val list \<Rightarrow> val" where
  "findInAliases s [] = VUndefined"
| "findInAliases s (alias_name # rest) =
     (let b = findInContextualBindings s alias_name
      in if \<not> isUndefined b then b else findInAliases s rest)"

definition getContextualConcrete :: "container \<Rightarrow> val \<Rightarrow> val" where
  "getContextualConcrete s abstract =
     (let b = findInContextualBindings s abstract
      in if \<not> isUndefined b then b
         else case abstractAliases s abstract of
                None \<Rightarrow> VUndefined
              | Some als \<Rightarrow> if als = [] then VUndefined else findInAliases s als)"

definition getConcrete :: "container \<Rightarrow> val \<Rightarrow> val" where
  "getConcrete s abstract =
     (let c = getContextualConcrete s abstract
      in if \<not> isUndefined c then c
         else case bindings s abstract of
                Some b \<Rightarrow> b_concrete b
              | None \<Rightarrow> abstract)"

definition isBuildable :: "val \<Rightarrow> val \<Rightarrow> bool" where
  "isBuildable c abstract =
     (equals c abstract \<or> (\<not> isInstantiable c \<and> instanceofFunction c))"

section \<open>Parameter overrides\<close>

definition getLastParameterOverride :: "container \<Rightarrow> params" where
  "getLastParameterOverride s =
     (if with_frames s \<noteq> [] then last (with_frames s) else PArr [])"

definition hasParameterOverride :: "container \<Rightarrow> reflectionParameter \<Rightarrow> bool" where
  "hasParameterOverride s dependency =
     (case getLastParameterOverride s of
        PArr xs \<Rightarrow> False
      | PObj kvs \<Rightarrow> map_of kvs (getName dependency) \<noteq> None)"

definition getParameterOverride :: "container \<Rightarrow> reflectionParameter \<Rightarrow> val" where
  "getParameterOverride s dependency =
     (case getLastParameterOverride s of
        PArr xs \<Rightarrow> VUndefined
      | PObj kvs \<Rightarrow>
          (case map_of kvs (getName dependency) of Some v \<Rightarrow> v | None \<Rightarrow> VUndefined))"

section \<open>Faults of the build\<close>

definition notInstantiable :: "container \<Rightarrow> val \<Rightarrow> error" where
  "notInstantiable s c = BindingResolutionError (NotInstantiable c (buildStack s))"

definition unresolvablePrimitive :: "reflectionParameter \<Rightarrow> error" where
  "unresolvablePrimitive p = BindingResolutionError (UnresolvablePrimitive (getName p))"

section \<open>Re-entering the container\<close>

text \<open>
  \<open>make\<close> (which only forwards to \<open>_resolve\<close>) and \<open>build\<close> are the two methods through
  which a resolution, and the user code it runs, re-enters the container. The functions
  below take them as \<open>this\<close>, the container's methods as a nested call sees them.
\<close>

record methods =
  this_make :: "container \<Rightarrow> val \<Rightarrow> params \<Rightarrow> (error + val) \<times> container"
  this_build :: "container \<Rightarrow> val \<Rightarrow> (error + val) \<times> container"

text \<open>Running user code against the container.\<close>

primrec run_script :: "script \<Rightarrow> methods \<Rightarrow> container \<Rightarrow> (error + val) \<times> container" where
  "run_script (Return v) this s = (Inr v, s)"
| "run_script (Throw e) this s = (Inl e, s)"
| "run_script (Inspect k) this s = run_script (k s) this s"
| "run_script (CallMake abstract parameters k) this s =
     (case this_make this s abstract parameters of (r, s1) \<Rightarrow> run_script (k r) this s1)"
| "run_script (CallBuild c k) this s =
     (case this_build this s c of (r, s1) \<Rightarrow> run_script (k r) this s1)"

section \<open>Extenders and resolving callbacks\<close>

definition getExtenders :: "nat \<Rightarrow> container \<Rightarrow> val \<Rightarrow> error + nat list" where
  "getExtenders n s abstract =
     (case getAlias n s abstract of
        Inl e \<Rightarrow> Inl e
      | Inr a \<Rightarrow> Inr (case extenders s a of Some xs \<Rightarrow> xs | None \<Rightarrow> []))"

text \<open>The loop \<open>object = extender(object, this)\<close>.\<close>

fun applyExtenders ::
  "methods \<Rightarrow> env \<Rightarrow> container \<Rightarrow> nat list \<Rightarrow> val \<Rightarrow> (error + val) \<times> container" where
  "applyExtenders this env s [] object = (Inr object, s)"
| "applyExtenders this env s (extender # rest) object =
     (case run_script (user_extender env extender object) this s of
        (Inl e, s1) \<Rightarrow> (Inl e, s1)
      | (Inr object', s1) \<Rightarrow> applyExtenders this env s1 rest object')"

text \<open>\<open>_fireCallbackArray\<close>: \<open>callback(object, this)\<close> for each callback in turn.\<close>

fun fireCallbackArray ::
  "methods \<Rightarrow> env \<Rightarrow> container \<Rightarrow> val \<Rightarrow> nat list \<Rightarrow> (error + unit) \<times> container" where
  "fireCallbackArray this env s object [] = (Inr (), s)"
| "fireCallbackArray this env s object (callback # rest) =
     (case run_script (user_callback env callback object) this
             (s\<lparr>cb_log := cb_log s @ [Resolving callback object]\<rparr>) of
        (Inl e, s1) \<Rightarrow> (Inl e, s1)
      | (Inr u, s1) \<Rightarrow> fireCallbackArray this env s1 object rest)"

text \<open>Objects, as opposed to primitive values.\<close>

fun isObject :: "val \<Rightarrow> bool" where
  "isObject (VObj i c args) = True"
| "isObject (VMapOf k) = True"
| "isObject (VCls c) = True"
| "isObject (VFun f) = True"
| "isObject (VClosure a c) = True"
| "isObject v = False"

text \<open>
  \<open>object instanceof ty\<close>. It throws when \<open>ty\<close> is not callable. For a function on the
  right it is false when the left operand is a primitive value; for an object on the left
  it looks at the prototype of the function, and throws when the function has none, as
  the arrow function of \<open>_getClosure\<close>.
\<close>

definition instanceof :: "env \<Rightarrow> val \<Rightarrow> val \<Rightarrow> error + bool" where
  "instanceof env object ty =
     (case ty of
        VCls c \<Rightarrow> Inr (isObject object \<and> instanceOf env object ty)
      | VFun f \<Rightarrow>
          if \<not> isObject object then Inr False
          else if has_prototype env f then Inr (instanceOf env object ty)
          else Inl TypeError
      | VClosure a c \<Rightarrow> if \<not> isObject object then Inr False else Inl TypeError
      | _ \<Rightarrow> Inl TypeError)"

text \<open>
  The \<open>forEach\<close> over the callbacks by type: a group fires when its key is the abstract
  or when the object is an instance of it.
\<close>

fun fireByType ::
  "methods \<Rightarrow> env \<Rightarrow> container \<Rightarrow> val \<Rightarrow> val \<Rightarrow> (val \<times> nat list) list
     \<Rightarrow> (error + unit) \<times> container" where
  "fireByType this env s abstract object [] = (Inr (), s)"
| "fireByType this env s abstract object ((ty, callbacks) # rest) =
     (case (if ty = abstract then Inr True else instanceof env object ty) of
        Inl e \<Rightarrow> (Inl e, s)
      | Inr matches \<Rightarrow>
          if matches
          then (case fireCallbackArray this env s object callbacks of
                  (Inl e, s1) \<Rightarrow> (Inl e, s1)
                | (Inr u, s1) \<Rightarrow> fireByType this env s1 abstract object rest)
          else fireByType this env s abstract object rest)"

definition fireAfterResolvingCallbacks ::
  "methods \<Rightarrow> env \<Rightarrow> container \<Rightarrow> val \<Rightarrow> val \<Rightarrow> (error + unit) \<times> container" where
  "fireAfterResolvingCallbacks this env s abstract object =
     (case (if globalAfterResolvingCallbacks s \<noteq> []
            then fireCallbackArray this env s object (globalAfterResolvingCallbacks s)
            else (Inr (), s)) of
        (Inl e, s1) \<Rightarrow> (Inl e, s1)
      | (Inr u, s1) \<Rightarrow> fireByType this env s1 abstract object (afterResolvingCallbacks s1))"

definition fireResolvingCallbacks ::
  "methods \<Rightarrow> env \<Rightarrow> container \<Rightarrow> val \<Rightarrow> val \<Rightarrow> (error + unit) \<times> container" where
  "fireResolvingCallbacks this env s abstract object =
     (case (if globalResolvingCallbacks s \<noteq> []
            then fireCallbackArray this env s object (globalResolvingCallbacks s)
            else (Inr (), s)) of
        (Inl e, s1) \<Rightarrow> (Inl e, s1)
      | (Inr u, s1) \<Rightarrow>
          (case fireByType this env s1 abstract object (resolvingCallbacks s1) of
             (Inl e, s2) \<Rightarrow> (Inl e, s2)
           | (Inr u, s2) \<Rightarrow> fireAfterResolvingCallbacks this env s2 abstract object))"

section \<open>Resolution\<close>

text \<open>
  The second half of \<open>_resolve\<close>, from the extenders on: the object is decorated, cached
  when the abstract is shared and no contextual build was needed, the resolving callbacks
  fire, the abstract is marked resolved and the parameter overrides are popped.
\<close>

definition resolve_finish ::
  "nat \<Rightarrow> methods \<Rightarrow> env \<Rightarrow> container \<Rightarrow> val \<Rightarrow> bool \<Rightarrow> val \<Rightarrow> (error + val) \<times> container"
where
  "resolve_finish n this env s abstract needs built =
     (case getExtenders n s abstract of
        Inl e \<Rightarrow> (Inl e, s)
      | Inr exts \<Rightarrow>
          (case applyExtenders this env s exts built of
             (Inl e, s0) \<Rightarrow> (Inl e, s0)
           | (Inr object, s0) \<Rightarrow>
               (let s1 = (if isShared s0 abstract \<and> \<not> needs
                          then s0\<lparr>instances := (instances s0)(abstract \<mapsto> object)\<rparr> else s0)
                in (case fireResolvingCallbacks this env s1 abstract object of
                      (Inl e, s2) \<Rightarrow> (Inl e, s2)
                    | (Inr u, s2) \<Rightarrow>
                        (let s3 = s2\<lparr>resolved_map := (resolved_map s2)(abstract \<mapsto> True)\<rparr>
                         in (Inr object, s3\<lparr>with_frames := butlast (with_frames s3)\<rparr>))))))"

text \<open>
  Calling a concrete that is a function. A user function runs with the overrides it is
  given; the closure of \<open>_getClosure\<close> builds its concrete when it equals the abstract
  and makes it with the overrides otherwise, and its overrides default to an empty map;
  a class constructor cannot be called without \<open>new\<close>.
\<close>

definition callConcrete ::
  "methods \<Rightarrow> env \<Rightarrow> container \<Rightarrow> val \<Rightarrow> params option \<Rightarrow> (error + val) \<times> container" where
  "callConcrete this env s c parameters =
     (case c of
        VFun f \<Rightarrow> run_script (user_function env f parameters) this s
      | VClosure abstract target \<Rightarrow>
          if equals abstract target then this_build this s target
          else this_make this s target
                 (case parameters of Some p \<Rightarrow> p | None \<Rightarrow> PObj [])
      | _ \<Rightarrow> (Inl TypeError, s))"

definition resolvePrimitive ::
  "methods \<Rightarrow> env \<Rightarrow> container \<Rightarrow> reflectionParameter \<Rightarrow> (error + val) \<times> container" where
  "resolvePrimitive this env s parameter =
     (let c = getContextualConcrete s (VStr (getName parameter))
      in if truthy c
         then (if instanceofFunction c then callConcrete this env s c None else (Inr c, s))
         else if isDefaultValueAvailable parameter
              then (Inr (getDefaultValue parameter), s)
              else (Inl (unresolvablePrimitive parameter), s))"

text \<open>
  \<open>_resolveClass\<close>: the \<open>catch\<close> looks at the class of the error and at the default value;
  the state is the one left at the point of the throw.
\<close>

definition resolveClass ::
  "methods \<Rightarrow> env \<Rightarrow> container \<Rightarrow> reflectionParameter \<Rightarrow> (error + val) \<times> container" where
  "resolveClass this env s parameter =
     (case getClass parameter of
        None \<Rightarrow> (Inl (BindingResolutionError MissingParameterType), s)
      | Some reflector \<Rightarrow>
          (case this_make this s (makeTarget reflector) (PArr []) of
             (Inl e, s1) \<Rightarrow>
               (if isBindingResolutionError e \<and> isDefaultValueAvailable parameter
                then (Inr (getDefaultValue parameter), s1)
                else (Inl e, s1))
           | (Inr v, s1) \<Rightarrow> (Inr v, s1)))"

fun resolveDependencies ::
  "methods \<Rightarrow> env \<Rightarrow> container \<Rightarrow> reflectionParameter list \<Rightarrow> (error + val list) \<times> container"
where
  "resolveDependencies this env s [] = (Inr [], s)"
| "resolveDependencies this env s (dependency # rest) =
     (case (if hasParameterOverride s dependency
            then (Inr (getParameterOverride s dependency), s)
            else if isBuiltin dependency then resolvePrimitive this env s dependency
            else resolveClass this env s dependency) of
        (Inl e, s1) \<Rightarrow> (Inl e, s1)
      | (Inr v, s1) \<Rightarrow>
          (case resolveDependencies this env s1 rest of
             (Inl e, s2) \<Rightarrow> (Inl e, s2)
           | (Inr vs, s2) \<Rightarrow> (Inr (v # vs), s2)))"

text \<open>
  \<open>build\<close>. Nothing is released on the way out of a fault: when the dependencies fail,
  the state at the point of the throw is what the caller sees.
\<close>

definition build :: "methods \<Rightarrow> env \<Rightarrow> container \<Rightarrow> val \<Rightarrow> (error + val) \<times> container" where
  "build this env s c =
     (if \<not> isInstantiable c \<and> instanceofFunction c
      then callConcrete this env s c (Some (getLastParameterOverride s))
      else if \<not> reflect_instantiable env c then (Inl (notInstantiable s c), s)
      else
        let s1 = s\<lparr>buildStack := buildStack s @ [c]\<rparr>;
            dependencies = reflect_parameters env c
        in if dependencies = []
           then (let s2 = s1\<lparr>buildStack := butlast (buildStack s1)\<rparr>
                 in (Inr (VObj (next_id s2) c []), s2\<lparr>next_id := Suc (next_id s2)\<rparr>))
           else (case resolveDependencies this env s1 dependencies of
                   (Inl e, s2) \<Rightarrow> (Inl e, s2)
                 | (Inr results, s2) \<Rightarrow>
                     (let s3 = s2\<lparr>buildStack := butlast (buildStack s2)\<rparr>
                      in (Inr (VObj (next_id s3) c results),
                          s3\<lparr>next_id := Suc (next_id s3)\<rparr>))))"

text \<open>The local \<open>needsContextualBuild\<close> of \<open>_resolve\<close>.\<close>

definition needsContextualBuild :: "container \<Rightarrow> val \<Rightarrow> params \<Rightarrow> bool" where
  "needsContextualBuild s abstract parameters =
     (\<not> Arr_empty parameters \<or> truthy (getContextualConcrete s abstract))"

text \<open>\<open>_resolve\<close>; \<open>n\<close> is the depth left for the recursion of \<open>getAlias\<close>.\<close>

definition resolve ::
  "nat \<Rightarrow> methods \<Rightarrow> env \<Rightarrow> container \<Rightarrow> val \<Rightarrow> params \<Rightarrow> (error + val) \<times> container" where
  "resolve n this env s abstract0 parameters =
     (case getAlias n s abstract0 of
        Inl e \<Rightarrow> (Inl e, s)
      | Inr abstract \<Rightarrow>
          (let needs = needsContextualBuild s abstract parameters
           in if instances s abstract \<noteq> None \<and> \<not> needs
              then (Inr (case instances s abstract of Some v \<Rightarrow> v | None \<Rightarrow> VUndefined), s)
              else
                (let s1 = s\<lparr>with_frames := with_frames s @ [parameters]\<rparr>;
                     c = getConcrete s1 abstract
                 in (case (if isBuildable c abstract then this_build this s1 c
                           else this_make this s1 c (PArr [])) of
                       (Inl e, s2) \<Rightarrow> (Inl e, s2)
                     | (Inr object, s2) \<Rightarrow>
                         resolve_finish n this env s2 abstract needs object))))"

text \<open>A call that ended in a throw is counted.\<close>

definition counted :: "(error + 'a) \<times> container \<Rightarrow> (error + 'a) \<times> container" where
  "counted out =
     (case out of
        (Inl e, t) \<Rightarrow> (Inl e, t\<lparr>thrown := Suc (thrown t)\<rparr>)
      | (Inr v, t) \<Rightarrow> (Inr v, t))"

text \<open>
  The container at call depth \<open>n\<close>: each nested call of \<open>make\<close> or \<open>build\<close> uses one unit
  of depth, and a call with no depth left is the \<open>RangeError\<close> of the engine. The source
  puts no bound on the recursion.
\<close>

primrec container_methods :: "nat \<Rightarrow> env \<Rightarrow> methods" where
  "container_methods 0 env =
     \<lparr>this_make = (\<lambda>s abstract parameters. counted (Inl RangeError, s)),
      this_build = (\<lambda>s c. counted (Inl RangeError, s))\<rparr>"
| "container_methods (Suc n) env =
     \<lparr>this_make = (\<lambda>s abstract parameters.
         counted (resolve n (container_methods n env) env s abstract parameters)),
      this_build = (\<lambda>s c. counted (build (container_methods n env) env s c))\<rparr>"

definition make :: "nat \<Rightarrow> env \<Rightarrow> container \<Rightarrow> val \<Rightarrow> params \<Rightarrow> (error + val) \<times> container" where
  "make n env s abstract parameters = this_make (container_methods n env) s abstract parameters"

section \<open>Registering bindings\<close>

definition dropStaleInstances :: "container \<Rightarrow> val \<Rightarrow> container" where
  "dropStaleInstances s abstract =
     (let s1 = s\<lparr>instances := (instances s)(abstract := None)\<rparr>
      in s1\<lparr>aliases := (aliases s1)(abstract := None)\<rparr>)"

definition getClosure :: "val \<Rightarrow> val \<Rightarrow> val" where
  "getClosure abstract c = VClosure abstract c"

definition getReboundCallbacks :: "container \<Rightarrow> val \<Rightarrow> nat list" where
  "getReboundCallbacks s abstract =
     (case reboundCallbacks s abstract of Some callbacks \<Rightarrow> callbacks | None \<Rightarrow> [])"

text \<open>The loop of \<open>_rebound\<close>: \<open>callback(this, instance)\<close> for each callback in turn.\<close>

fun fireRebound ::
  "methods \<Rightarrow> env \<Rightarrow> container \<Rightarrow> val \<Rightarrow> nat list \<Rightarrow> (error + unit) \<times> container" where
  "fireRebound this env s inst [] = (Inr (), s)"
| "fireRebound this env s inst (callback # rest) =
     (case run_script (user_callback env callback inst) this
             (s\<lparr>cb_log := cb_log s @ [Rebound callback inst]\<rparr>) of
        (Inl e, s1) \<Rightarrow> (Inl e, s1)
      | (Inr u, s1) \<Rightarrow> fireRebound this env s1 inst rest)"

text \<open>\<open>_rebound\<close>: the abstract is made again and every rebound callback gets the instance.\<close>

definition rebound :: "nat \<Rightarrow> env \<Rightarrow> container \<Rightarrow> val \<Rightarrow> (error + unit) \<times> container" where
  "rebound n env s abstract =
     (case make n env s abstract (PArr []) of
        (Inl e, s1) \<Rightarrow> (Inl e, s1)
      | (Inr inst, s1) \<Rightarrow>
          fireRebound (container_methods n env) env s1 inst (getReboundCallbacks s1 abstract))"

text \<open>
  \<open>bind\<close>: an omitted concrete is \<open>undefined\<close>. The stale instance and alias are dropped
  before anything is checked.
\<close>

definition bind_concrete ::
  "nat \<Rightarrow> env \<Rightarrow> container \<Rightarrow> val \<Rightarrow> val \<Rightarrow> bool \<Rightarrow> (error + unit) \<times> container" where
  "bind_concrete n env s abstract c0 is_shared =
     (let s1 = dropStaleInstances s abstract;
          register = (\<lambda>c1.
            let c2 = (if isInstantiable c1 then getClosure abstract c1 else c1);
                s2 = s1\<lparr>bindings := (bindings s1)(abstract \<mapsto>
                          \<lparr>b_concrete = c2, b_shared = is_shared\<rparr>)\<rparr>
            in (case resolved n s2 abstract of
                  Inl e \<Rightarrow> (Inl e, s2)
                | Inr was_resolved \<Rightarrow>
                    if was_resolved then rebound n env s2 abstract else (Inr (), s2)))
      in if isNullOrUndefined c0 \<and> isInstantiable abstract then register abstract
         else if isNullOrUndefined c0 then (Inl BindingError, s1)
         else register c0)"



definition singleton :: "nat \<Rightarrow> env \<Rightarrow> container \<Rightarrow> val \<Rightarrow> val \<Rightarrow> (error + unit) \<times> container" where
  "singleton n env s abstract c = bind_concrete n env s abstract c True"

definition bindIf ::
  "nat \<Rightarrow> env \<Rightarrow> container \<Rightarrow> val \<Rightarrow> val \<Rightarrow> bool \<Rightarrow> (error + unit) \<times> container" where
  "bindIf n env s abstract c is_shared =
     (if \<not> bound s abstract then bind_concrete n env s abstract c is_shared else (Inr (), s))"

text \<open>\<open>rebinding\<close>: the callback is stored under the canonical name.\<close>

definition rebinding ::
  "nat \<Rightarrow> env \<Rightarrow> container \<Rightarrow> val \<Rightarrow> nat \<Rightarrow> (error + val) \<times> container" where
  "rebinding n env s abstract0 callback =
     (case getAlias n s abstract0 of
        Inl e \<Rightarrow> (Inl e, s)
      | Inr abstract \<Rightarrow>
          (let s1 = s\<lparr>reboundCallbacks := (reboundCallbacks s)(abstract \<mapsto>
                        (case reboundCallbacks s abstract of
                           Some callbacks \<Rightarrow> callbacks @ [callback]
                         | None \<Rightarrow> [callback]))\<rparr>
           in if bound s1 abstract then make n env s1 abstract (PArr [])
              else (Inr VUndefined, s1)))"

section \<open>Tags\<close>

text \<open>The inner loop of \<open>tag\<close>: each abstract is pushed onto the list of the tag.\<close>

fun tag_push :: "container \<Rightarrow> string \<Rightarrow> val list \<Rightarrow> container" where
  "tag_push s t [] = s"
| "tag_push s t (abstract # rest) =
     tag_push (s\<lparr>tags := (tags s)(t \<mapsto>
                   (case tags s t of Some members \<Rightarrow> members | None \<Rightarrow> []) @ [abstract])\<rparr>)
              t rest"

fun tag :: "container \<Rightarrow> val list \<Rightarrow> string list \<Rightarrow> container" where
  "tag s abstracts [] = s"
| "tag s abstracts (t # rest) =
     (let s1 = (if tags s t = None then s\<lparr>tags := (tags s)(t \<mapsto> [])\<rparr> else s)
      in tag (tag_push s1 t abstracts) abstracts rest)"

text \<open>The loop of \<open>tagged\<close>: \<open>results.push(this.make(abstract))\<close>.\<close>

fun tagged_loop ::
  "nat \<Rightarrow> env \<Rightarrow> container \<Rightarrow> val list \<Rightarrow> (error + val list) \<times> container" where
  "tagged_loop n env s [] = (Inr [], s)"
| "tagged_loop n env s (abstract # rest) =
     (case make n env s abstract (PArr []) of
        (Inl e, s1) \<Rightarrow> (Inl e, s1)
      | (Inr v, s1) \<Rightarrow>
          (case tagged_loop n env s1 rest of
             (Inl e, s2) \<Rightarrow> (Inl e, s2)
           | (Inr vs, s2) \<Rightarrow> (Inr (v # vs), s2)))"

definition tagged :: "nat \<Rightarrow> env \<Rightarrow> container \<Rightarrow> string \<Rightarrow> (error + val list) \<times> container" where
  "tagged n env s t =
     (case tags s t of
        Some members \<Rightarrow> tagged_loop n env s members
      | None \<Rightarrow> (Inr [], s))"

section \<open>An example program\<close>

text \<open>
  A small program for the concrete runs below: a \<open>Service\<close> whose constructor takes a
  \<open>Repository\<close> (with the default value \<open>d\<close>), a \<open>Repository\<close> whose constructor takes
  a primitive \<open>dsn\<close> without a default, a \<open>Clock\<close> and a \<open>Timer\<close> without constructor
  parameters, and an interface \<open>Logger\<close> that nothing implements. The factory \<open>1\<close> is
  \<open>container => container.make(Timer)\<close>; the factory \<open>2\<close> tries \<open>container.make(Logger)\<close>,
  catches what it throws and returns \<open>null\<close>; every other factory throws. Extenders
  return the object they are given, and callbacks do nothing.
\<close>

definition ex_Service :: val where "ex_Service = VCls ''Service''"
definition ex_Repository :: val where "ex_Repository = VCls ''Repository''"
definition ex_Clock :: val where "ex_Clock = VCls ''Clock''"
definition ex_Timer :: val where "ex_Timer = VCls ''Timer''"
definition ex_Logger :: val where "ex_Logger = VSym ''Logger''"

definition ex_repo :: "val \<Rightarrow> reflectionParameter" where
  "ex_repo d = \<lparr>p_target = ex_Service, p_name = ''repo'',
                p_type = ClassType ex_Repository, p_value = d\<rparr>"

definition ex_dsn :: reflectionParameter where
  "ex_dsn = \<lparr>p_target = ex_Repository, p_name = ''dsn'', p_type = Builtin,
             p_value = VUndefined\<rparr>"

definition example_env :: "val \<Rightarrow> env" where
  "example_env d =
     \<lparr>reflect_instantiable =
        (\<lambda>c. c = ex_Service \<or> c = ex_Repository \<or> c = ex_Clock \<or> c = ex_Timer),
      reflect_parameters = (\<lambda>c. if c = ex_Service then [ex_repo d]
                                 else if c = ex_Repository then [ex_dsn] else []),
      user_function = (\<lambda>f ps.
        if f = 1 then CallMake ex_Timer (PArr [])
                        (\<lambda>r. case r of Inl e \<Rightarrow> Throw e | Inr v \<Rightarrow> Return v)
        else if f = 2 then CallMake ex_Logger (PArr []) (\<lambda>r. Return VNull)
        else Throw (UserError f)),
      user_extender = (\<lambda>x v. Return v),
      user_callback = (\<lambda>cb v. Return VUndefined),
      has_prototype = (\<lambda>f. True),
      instanceOf = (\<lambda>object ty. False)\<rparr>"

text \<open>A container in which the name \<open>clock\<close> is an alias of \<open>Clock\<close>.\<close>

definition ex_aliased :: container where
  "ex_aliased = Container_alias new_container ex_Clock (VStr ''clock'')"

text \<open>The alias graph: an edge from each alias to what it stands for.\<close>

definition alias_edges :: "container \<Rightarrow> (val \<times> val) set" where
  "alias_edges s = {(a, b). aliases s a = Some b}"

text \<open>
  A container that is building \<open>Repository\<close> and holds the contextual override \<open>0\<close> for
  the primitive \<open>dsn\<close>.
\<close>

definition ex_falsy_override :: container where
  "ex_falsy_override =
     new_container\<lparr>contextual := [ex_Repository \<mapsto> [VStr ''dsn'' \<mapsto> VNum 0]],
                   buildStack := [ex_Repository]\<rparr>"

text \<open>A constructor parameter typed by the interface \<open>Logger\<close>, with a default value.\<close>

definition ex_logger :: reflectionParameter where
  "ex_logger = \<lparr>p_target = ex_Service, p_name = ''logger'',
                p_type = InterfaceType ex_Logger, p_value = VStr ''console''\<rparr>"



text \<open>
  The container after \<open>singleton(Clock)\<close> and
  \<open>when(Repository).needs(Clock).give(Timer)\<close>.
\<close>

definition ex_contextual :: container where
  "ex_contextual =
     new_container\<lparr>bindings :=
         [ex_Clock \<mapsto> \<lparr>b_concrete = VClosure ex_Clock ex_Clock, b_shared = True\<rparr>],
       contextual := [ex_Repository \<mapsto> [ex_Clock \<mapsto> ex_Timer]]\<rparr>"


text \<open>The container after \<open>bind(Clock, factory)\<close> for the factory \<open>2\<close>.\<close>

definition ex_catching :: container where
  "ex_catching = new_container\<lparr>bindings :=
       [ex_Clock \<mapsto> \<lparr>b_concrete = VFun 2, b_shared = False\<rparr>]\<rparr>"

text \<open>
  The container of \<open>ex_contextual\<close> after a \<open>make(Service)\<close> that failed in a program where
  the \<open>repo\<close> parameter has no default: the frames and the entries of the failed call
  are still on the two stacks.
\<close>

definition ex_leaked :: container where
  "ex_leaked =
     ex_contextual\<lparr>with_frames := [PArr [], PArr []],
                    buildStack := [ex_Service, ex_Repository], thrown := 4\<rparr>"






section \<open>Relations between the states before and after a call\<close>

text \<open>
  What a resolution writes: the two stacks, the allocation counter, the resolved flags,
  the calls of resolving callbacks in the log and the count of throws (\<open>step_closed\<close>),
  and the instance cache, at a key that had no instance when the call began
  (\<open>cache_closed\<close>). A relation that is reflexive, transitive and holds across each of
  these writes holds across every call of \<open>make\<close> and \<open>build\<close>, whatever user code runs
  in it.
\<close>

definition step_closed :: "(container \<Rightarrow> container \<Rightarrow> bool) \<Rightarrow> bool" where
  "step_closed R =
     ((\<forall>s. R s s) \<and> (\<forall>s t u. R s t \<longrightarrow> R t u \<longrightarrow> R s u)
      \<and> (\<forall>s w. R s (s\<lparr>with_frames := w\<rparr>))
      \<and> (\<forall>s b. R s (s\<lparr>buildStack := b\<rparr>))
      \<and> (\<forall>s. R s (s\<lparr>next_id := Suc (next_id s)\<rparr>))
      \<and> (\<forall>s a. R s (s\<lparr>resolved_map := (resolved_map s)(a \<mapsto> True)\<rparr>))
      \<and> (\<forall>s callback v. R s (s\<lparr>cb_log := cb_log s @ [Resolving callback v]\<rparr>))
      \<and> (\<forall>s. R s (s\<lparr>thrown := Suc (thrown s)\<rparr>)))"

definition cache_closed :: "(container \<Rightarrow> container \<Rightarrow> bool) \<Rightarrow> bool" where
  "cache_closed R =
     (\<forall>s t a v. R s t \<longrightarrow> instances s a = None \<longrightarrow>
                R s (t\<lparr>instances := (instances t)(a \<mapsto> v)\<rparr>))"

definition methods_rel :: "(container \<Rightarrow> container \<Rightarrow> bool) \<Rightarrow> methods \<Rightarrow> bool" where
  "methods_rel R this =
     ((\<forall>s a p. R s (snd (this_make this s a p))) \<and> (\<forall>s c. R s (snd (this_build this s c))))"

text \<open>The registries that only the registration methods write.\<close>

definition same_registries :: "container \<Rightarrow> container \<Rightarrow> bool" where
  "same_registries s t =
     (contextual t = contextual s \<and> bindings t = bindings s \<and> aliases t = aliases s
      \<and> abstractAliases t = abstractAliases s \<and> extenders t = extenders s
      \<and> tags t = tags s \<and> reboundCallbacks t = reboundCallbacks s
      \<and> globalResolvingCallbacks t = globalResolvingCallbacks s
      \<and> globalAfterResolvingCallbacks t = globalAfterResolvingCallbacks s
      \<and> resolvingCallbacks t = resolvingCallbacks s
      \<and> afterResolvingCallbacks t = afterResolvingCallbacks s)"

section \<open>The two stacks across a call\<close>

fun returned :: "error + 'a \<Rightarrow> bool" where
  "returned (Inr v) = True"
| "returned (Inl e) = False"

text \<open>
  The stacks after a step that started in \<open>s\<close>: the old stacks followed by what was left
  on them, and the old stacks when the step returned a value and no call of \<open>make\<close> or
  \<open>build\<close> has thrown since \<open>s\<close>.
\<close>

definition stacks_kept :: "container \<Rightarrow> (error + 'a) \<times> container \<Rightarrow> bool" where
  "stacks_kept s out =
     (case out of
        (r, t) \<Rightarrow> thrown s \<le> thrown t
                  \<and> (\<exists>ws. with_frames t = with_frames s @ ws)
                  \<and> (\<exists>bs. buildStack t = buildStack s @ bs)
                  \<and> (returned r \<and> thrown t = thrown s \<longrightarrow>
                       with_frames t = with_frames s \<and> buildStack t = buildStack s))"

text \<open>A call of \<open>make\<close> or \<open>build\<close>: it is counted when it throws.\<close>

definition call_kept :: "container \<Rightarrow> (error + 'a) \<times> container \<Rightarrow> bool" where
  "call_kept s out =
     (stacks_kept s out \<and> (\<not> returned (fst out) \<longrightarrow> thrown s < thrown (snd out)))"

definition methods_kept :: "methods \<Rightarrow> bool" where
  "methods_kept this =
     ((\<forall>s a p. call_kept s (this_make this s a p)) \<and> (\<forall>s c. call_kept s (this_build this s c)))"

text \<open>Steps that write neither stack nor count a throw.\<close>

definition same_stacks :: "container \<Rightarrow> container \<Rightarrow> bool" where
  "same_stacks s t =
     (with_frames t = with_frames s \<and> buildStack t = buildStack s \<and> thrown t = thrown s)"

section \<open>The instance cache across a call\<close>

text \<open>The allocation counter only grows.\<close>

definition next_id_mono :: "container \<Rightarrow> container \<Rightarrow> bool" where
  "next_id_mono s t = (next_id s \<le> next_id t)"







section \<open>Alias canonicalization\<close>

lemmas ex_defs = ex_Service_def ex_Repository_def ex_Clock_def ex_Timer_def ex_Logger_def
  ex_repo_def ex_dsn_def ex_logger_def example_env_def

text \<open>The definitions that a run on a concrete program unfolds.\<close>

lemmas run_defs = make_def resolve_def build_def new_container_def
  needsContextualBuild_def getContextualConcrete_def findInContextualBindings_def
  NestedMap_has_def NestedMap_get_def Arr_last_def isNullOrUndefined_def isUndefined_def
  getConcrete_def isBuildable_def equals_def notInstantiable_def
  hasParameterOverride_def getParameterOverride_def getLastParameterOverride_def
  isBuiltin_def resolveClass_def getClass_def resolvePrimitive_def getName_def
  isDefaultValueAvailable_def getDefaultValue_def unresolvablePrimitive_def
  resolve_finish_def getExtenders_def isShared_def fireResolvingCallbacks_def
  fireAfterResolvingCallbacks_def callConcrete_def counted_def Let_def

lemma getAlias_mono: "getAlias n s x = Inr y \<Longrightarrow> getAlias (n + k) s x = Inr y"
proof (induction n arbitrary: x)
  case 0
  then show ?case by simp
next
  case (Suc n)
  then show ?case by (auto split: option.splits if_splits)
qed

lemma getAlias_result_canonical: "getAlias n s x = Inr y \<Longrightarrow> aliases s y = None"
proof (induction n arbitrary: x)
  case 0
  then show ?case by simp
next
  case (Suc n)
  then show ?case by (auto split: option.splits if_splits)
qed

lemma getAlias_canonical: "aliases s y = None \<Longrightarrow> getAlias (Suc m) s y = Inr y"
  by simp

lemma finite_alias_edges:
  assumes "finite (dom (aliases s))"
  shows "finite (alias_edges s)"
proof -
  have "alias_edges s \<subseteq> (\<lambda>a. (a, the (aliases s a))) ` dom (aliases s)"
    by (auto simp: alias_edges_def image_iff dom_def)
  then show ?thesis using assms by (meson finite_imageI finite_subset)
qed

text \<open>In a finite alias graph without cycles the recursion of \<open>getAlias\<close> ends.\<close>

lemma getAlias_terminates:
  assumes fin: "finite (dom (aliases s))" and acyc: "acyclic (alias_edges s)"
  shows "\<exists>n y. getAlias n s x = Inr y"
proof -
  have wf: "wf ((alias_edges s)\<inverse>)"
    using finite_acyclic_wf_converse[OF finite_alias_edges[OF fin] acyc] .
  show ?thesis
  proof (induction x rule: wf_induct_rule[OF wf])
    case (1 x)
    show ?case
    proof (cases "aliases s x")
      case None
      then have "getAlias (Suc 0) s x = Inr x" by simp
      then show ?thesis by blast
    next
      case (Some t)
      then have e: "(x, t) \<in> alias_edges s" by (simp add: alias_edges_def)
      have "t \<noteq> x" using e acyc by (auto simp: acyclic_def)
      moreover obtain n y where "getAlias n s t = Inr y" using 1[of t] e by auto
      ultimately have "getAlias (Suc n) s x = Inr y" using Some by simp
      then show ?thesis by blast
    qed
  qed
qed

text \<open>
  C6: in a container whose alias graph has no cycle, canonicalizing is idempotent. The
  map of aliases is finite, as every \<open>Map\<close> is. With enough call depth \<open>getAlias x\<close>
  returns a name \<open>y\<close>, and \<open>getAlias y\<close> returns \<open>y\<close> again.
\<close>

theorem getAlias_idempotent:
  assumes "finite (dom (aliases s))" and "acyclic (alias_edges s)"
  shows "\<exists>n y. \<forall>m\<ge>n. getAlias m s x = Inr y \<and> getAlias m s y = Inr y"
proof -
  obtain n y where n: "getAlias n s x = Inr y"
    using getAlias_terminates[OF assms] by blast
  have c: "aliases s y = None" by (rule getAlias_result_canonical[OF n])
  have "getAlias m s x = Inr y \<and> getAlias m s y = Inr y" if ge: "m \<ge> Suc n" for m
  proof -
    have m: "m = n + (m - n)" using ge by simp
    obtain j where j: "m = Suc j" using ge by (cases m) auto
    show ?thesis
      using getAlias_mono[OF n, of "m - n"] getAlias_canonical[OF c, of j] m j by simp
  qed
  then show ?thesis by blast
qed

lemma ex_aliased_edges: "alias_edges ex_aliased = {(VStr ''clock'', ex_Clock)}"
  by (auto simp: alias_edges_def ex_aliased_def Container_alias_def new_container_def Let_def
      ex_defs split: if_splits)

theorem getAlias_idempotent_witness:
  "finite (dom (aliases ex_aliased)) \<and> acyclic (alias_edges ex_aliased)
   \<and> (\<exists>n y. \<forall>m\<ge>n. getAlias m ex_aliased (VStr ''clock'') = Inr y
                     \<and> getAlias m ex_aliased y = Inr y)"
proof -
  have f: "finite (dom (aliases ex_aliased))"
    by (simp add: ex_aliased_def Container_alias_def new_container_def Let_def)
  have "acyclic ({} :: (val \<times> val) set)" by (simp add: acyclic_def)
  then have a: "acyclic (alias_edges ex_aliased)"
    by (simp add: ex_aliased_edges ex_defs)
  show ?thesis using f a getAlias_idempotent[OF f a, of "VStr ''clock''"] by simp
qed

section \<open>Registering an alias\<close>

text \<open>
  \<open>Aliaser.alias\<close> rejects an identifier aliased to itself before it writes anything.
\<close>

lemma Aliaser_alias_self: "Aliaser_alias s a a = Inl LogicError"
  by (simp add: Aliaser_alias_def)

text \<open>
  The self-alias that \<open>Container.alias\<close> has stored is found only when the name is looked
  up: \<open>getAlias\<close> then throws the \<open>LogicError\<close>.
\<close>

lemma Container_alias_self_lookup:
  "getAlias (Suc n) (Container_alias s a a) a = Inl LogicError"
  by (simp add: Container_alias_def Let_def)

text \<open>
  C2: aliasing an identifier to itself fails at registration and leaves the registry as it
  was. \<open>Container.alias\<close> does not do so: called with the name \<open>a\<close> for both arguments on a
  new container it returns normally, and afterwards \<open>a\<close> is an alias of itself and is
  listed among its own aliases.
\<close>

theorem Container_alias_self_registers:
  "aliases (Container_alias new_container (VStr ''a'') (VStr ''a'')) (VStr ''a'')
     = Some (VStr ''a'')
   \<and> abstractAliases (Container_alias new_container (VStr ''a'') (VStr ''a'')) (VStr ''a'')
     = Some [VStr ''a'']
   \<and> isAlias (Container_alias new_container (VStr ''a'') (VStr ''a'')) (VStr ''a'')
   \<and> \<not> isAlias new_container (VStr ''a'')"
  by (simp add: Container_alias_def new_container_def Let_def isAlias_def)

section \<open>Unbinding\<close>

text \<open>
  C9: \<open>unbind\<close> removes the binding record, the cached instance and the resolved flag of
  the abstract and nothing else; the alias edges and the reverse index stay. An abstract
  that was an alias is therefore still an alias afterwards, and \<open>bound\<close> and \<open>has\<close> still
  hold for it.
\<close>

theorem unbind_keeps_aliases:
  "unbind s a = s\<lparr>bindings := (bindings s)(a := None),
                  instances := (instances s)(a := None),
                  resolved_map := (resolved_map s)(a := None)\<rparr>
   \<and> aliases (unbind s a) = aliases s
   \<and> abstractAliases (unbind s a) = abstractAliases s
   \<and> isAlias (unbind s a) a = isAlias s a
   \<and> (isAlias s a \<longrightarrow> bound (unbind s a) a \<and> has (unbind s a) a)"
  by (simp add: unbind_def Let_def isAlias_def bound_def has_def)

theorem unbind_keeps_aliases_witness:
  "isAlias ex_aliased (VStr ''clock'')
   \<and> bindings (unbind ex_aliased (VStr ''clock'')) (VStr ''clock'') = None
   \<and> instances (unbind ex_aliased (VStr ''clock'')) (VStr ''clock'') = None
   \<and> bound (unbind ex_aliased (VStr ''clock'')) (VStr ''clock'')
   \<and> has (unbind ex_aliased (VStr ''clock'')) (VStr ''clock'')"
proof -
  have a: "isAlias ex_aliased (VStr ''clock'')"
    by (simp add: ex_aliased_def Container_alias_def new_container_def Let_def isAlias_def)
  have b: "bindings (unbind ex_aliased (VStr ''clock'')) (VStr ''clock'') = None"
    by (simp add: unbind_def Let_def)
  have c: "instances (unbind ex_aliased (VStr ''clock'')) (VStr ''clock'') = None"
    by (simp add: unbind_def Let_def)
  have "bound (unbind ex_aliased (VStr ''clock'')) (VStr ''clock'')
        \<and> has (unbind ex_aliased (VStr ''clock'')) (VStr ''clock'')"
    using a unbind_keeps_aliases[of ex_aliased "VStr ''clock''"] by blast
  then show ?thesis using a b c by blast
qed

section \<open>What every resolution keeps\<close>

text \<open>
  Each method of the resolution relates the state it starts in to the state it leaves,
  whether it returns or throws, by any relation that is closed under the writes it makes.
  The lemmas follow the call structure: user code, the call of a function concrete, the
  primitive and class dependencies, the loop over the dependencies, \<open>build\<close>, the
  extenders and callbacks, the two halves of \<open>_resolve\<close> and, by induction on the call
  depth, \<open>make\<close>.
\<close>

lemma mr_make: "methods_rel R this \<Longrightarrow> this_make this s a p = (r, t) \<Longrightarrow> R s t"
  unfolding methods_rel_def by (metis snd_conv)

lemma mr_build: "methods_rel R this \<Longrightarrow> this_build this s c = (r, t) \<Longrightarrow> R s t"
  unfolding methods_rel_def by (metis snd_conv)

lemma sc_refl: "step_closed R \<Longrightarrow> R s s"
  by (simp add: step_closed_def)

lemma sc_trans: "step_closed R \<Longrightarrow> R s t \<Longrightarrow> R t u \<Longrightarrow> R s u"
  unfolding step_closed_def by blast

lemma rel_run_script:
  assumes sc: "step_closed R" and mr: "methods_rel R this"
  shows "R s (snd (run_script script this s))"
proof (induction script arbitrary: s)
  case (Return v)
  show ?case by (simp add: sc_refl[OF sc])
next
  case (Throw e)
  show ?case by (simp add: sc_refl[OF sc])
next
  case (Inspect k)
  show ?case using Inspect[of "k s" s] by simp
next
  case (CallMake a p k)
  obtain r s1 where m: "this_make this s a p = (r, s1)" by (cases "this_make this s a p")
  have "R s s1" by (rule mr_make[OF mr m])
  then have "R s (snd (run_script (k r) this s1))"
    by (rule sc_trans[OF sc _ CallMake[of "k r" s1]]) simp
  then show ?case by (simp add: m)
next
  case (CallBuild c k)
  obtain r s1 where m: "this_build this s c = (r, s1)" by (cases "this_build this s c")
  have "R s s1" by (rule mr_build[OF mr m])
  then have "R s (snd (run_script (k r) this s1))"
    by (rule sc_trans[OF sc _ CallBuild[of "k r" s1]]) simp
  then show ?case by (simp add: m)
qed

lemma rel_callConcrete:
  "step_closed R \<Longrightarrow> methods_rel R this \<Longrightarrow> R s (snd (callConcrete this env s c ps))"
  by (cases c) (simp_all add: callConcrete_def methods_rel_def sc_refl rel_run_script)

lemma rel_resolvePrimitive:
  "step_closed R \<Longrightarrow> methods_rel R this \<Longrightarrow> R s (snd (resolvePrimitive this env s p))"
  by (simp add: resolvePrimitive_def Let_def rel_callConcrete sc_refl)

lemma rel_resolveClass:
  assumes "step_closed R" "methods_rel R this"
  shows "R s (snd (resolveClass this env s p))"
proof (cases "getClass p")
  case None
  then show ?thesis using assms by (simp add: resolveClass_def sc_refl)
next
  case (Some r)
  have "R s (snd (this_make this s (makeTarget r) (PArr [])))"
    using assms(2) by (simp add: methods_rel_def)
  then show ?thesis using Some
    by (auto simp: resolveClass_def split: prod.splits sum.splits)
qed

lemma rel_resolveDependencies:
  assumes "step_closed R" "methods_rel R this"
  shows "R s (snd (resolveDependencies this env s deps))"
proof (induction deps arbitrary: s)
  case Nil
  show ?case using assms by (simp add: sc_refl)
next
  case (Cons d ds)
  define r1 where "r1 = (if hasParameterOverride s d
            then (Inr (getParameterOverride s d), s)
            else if isBuiltin d then resolvePrimitive this env s d
            else resolveClass this env s d)"
  have 1: "R s (snd r1)"
    using assms by (simp add: r1_def sc_refl rel_resolvePrimitive rel_resolveClass)
  have 2: "R (snd r1) (snd (resolveDependencies this env (snd r1) ds))"
    by (rule Cons.IH)
  have 3: "R s (snd (resolveDependencies this env (snd r1) ds))"
    using sc_trans[OF assms(1) 1 2] .
  show ?case using 1 3
    by (auto simp: r1_def[symmetric] split: prod.splits sum.splits)
qed

lemma sc_with: "step_closed R \<Longrightarrow> R s (s\<lparr>with_frames := w\<rparr>)"
  by (simp add: step_closed_def)

lemma sc_stack: "step_closed R \<Longrightarrow> R s (s\<lparr>buildStack := b\<rparr>)"
  by (simp add: step_closed_def)

lemma sc_id: "step_closed R \<Longrightarrow> R s (s\<lparr>next_id := Suc (next_id s)\<rparr>)"
  by (simp add: step_closed_def)

lemma sc_inst:
  "cache_closed R \<Longrightarrow> R s t \<Longrightarrow> instances s a = None \<Longrightarrow>
   R s (t\<lparr>instances := (instances t)(a \<mapsto> v)\<rparr>)"
  unfolding cache_closed_def by blast

lemma sc_res: "step_closed R \<Longrightarrow> R s (s\<lparr>resolved_map := (resolved_map s)(a \<mapsto> True)\<rparr>)"
  by (simp add: step_closed_def)

lemma sc_log: "step_closed R \<Longrightarrow> R s (s\<lparr>cb_log := cb_log s @ [Resolving callback v]\<rparr>)"
  by (simp add: step_closed_def)

lemma sc_thrown: "step_closed R \<Longrightarrow> R s (s\<lparr>thrown := Suc (thrown s)\<rparr>)"
  by (simp add: step_closed_def)

lemma sc_pop:
  assumes sc: "step_closed R" and st: "R s t"
  shows "R s (t\<lparr>buildStack := butlast (buildStack t), next_id := Suc (next_id t)\<rparr>)"
proof -
  let ?t1 = "t\<lparr>buildStack := butlast (buildStack t)\<rparr>"
  have 1: "R t ?t1" by (rule sc_stack[OF sc])
  have 2: "R ?t1 (?t1\<lparr>next_id := Suc (next_id ?t1)\<rparr>)" by (rule sc_id[OF sc])
  have "R s (?t1\<lparr>next_id := Suc (next_id ?t1)\<rparr>)"
    by (rule sc_trans[OF sc sc_trans[OF sc st 1] 2])
  then show ?thesis by simp
qed

lemma rel_build:
  assumes sc: "step_closed R" and mr: "methods_rel R this"
  shows "R s (snd (build this env s c))"
proof (cases "\<not> isInstantiable c \<and> instanceofFunction c")
  case True
  then show ?thesis by (simp add: build_def rel_callConcrete[OF sc mr])
next
  case nf: False
  show ?thesis
  proof (cases "reflect_instantiable env c")
    case False
    then show ?thesis using nf by (auto simp add: build_def sc_refl[OF sc])
  next
    case inst: True
    let ?s1 = "s\<lparr>buildStack := buildStack s @ [c]\<rparr>"
    have a: "R s ?s1" by (rule sc_stack[OF sc])
    show ?thesis
    proof (cases "reflect_parameters env c = []")
      case True
      then show ?thesis using nf inst sc_pop[OF sc a]
        by (auto simp add: build_def Let_def)
    next
      case False
      obtain r t where rd: "resolveDependencies this env ?s1 (reflect_parameters env c) = (r, t)"
        by (cases "resolveDependencies this env ?s1 (reflect_parameters env c)")
      have d: "R s t"
        using sc_trans[OF sc a rel_resolveDependencies[OF sc mr, of ?s1 env "reflect_parameters env c"]] rd
        by simp
      show ?thesis
      proof (cases r)
        case (Inl e)
        then show ?thesis using nf inst False rd d by (auto simp add: build_def Let_def)
      next
        case (Inr vs)
        then show ?thesis using nf inst False rd sc_pop[OF sc d] by (auto simp add: build_def Let_def)
      qed
    qed
  qed
qed

lemma rel_applyExtenders:
  assumes sc: "step_closed R" and mr: "methods_rel R this"
  shows "R s (snd (applyExtenders this env s exts object))"
proof (induction exts arbitrary: s object)
  case Nil
  show ?case by (simp add: sc_refl[OF sc])
next
  case (Cons x xs)
  obtain r s1 where f: "run_script (user_extender env x object) this s = (r, s1)"
    by (cases "run_script (user_extender env x object) this s")
  have 1: "R s s1" using rel_run_script[OF sc mr, of s "user_extender env x object"] f by simp
  show ?case
  proof (cases r)
    case (Inl e)
    then show ?thesis using f 1 by simp
  next
    case (Inr v)
    then show ?thesis using f sc_trans[OF sc 1 Cons.IH[of s1 v]] by simp
  qed
qed

lemma rel_fireCallbackArray:
  assumes sc: "step_closed R" and mr: "methods_rel R this"
  shows "R s (snd (fireCallbackArray this env s object callbacks))"
proof (induction callbacks arbitrary: s)
  case Nil
  show ?case by (simp add: sc_refl[OF sc])
next
  case (Cons cb cbs)
  let ?s0 = "s\<lparr>cb_log := cb_log s @ [Resolving cb object]\<rparr>"
  obtain r s1 where f: "run_script (user_callback env cb object) this ?s0 = (r, s1)"
    by (cases "run_script (user_callback env cb object) this ?s0")
  have 1: "R s s1"
    using sc_trans[OF sc sc_log[OF sc] rel_run_script[OF sc mr, of ?s0 "user_callback env cb object"]] f
    by simp
  show ?case
  proof (cases r)
    case (Inl e)
    then show ?thesis using f 1 by simp
  next
    case (Inr v)
    then show ?thesis using f sc_trans[OF sc 1 Cons.IH[of s1]] by simp
  qed
qed

lemma rel_fireByType:
  assumes sc: "step_closed R" and mr: "methods_rel R this"
  shows "R s (snd (fireByType this env s abstract object groups))"
proof (induction groups arbitrary: s)
  case Nil
  show ?case by (simp add: sc_refl[OF sc])
next
  case (Cons g gs)
  obtain ty callbacks where g: "g = (ty, callbacks)" by (cases g)
  obtain r s1 where f: "fireCallbackArray this env s object callbacks = (r, s1)"
    by (cases "fireCallbackArray this env s object callbacks")
  have 1: "R s s1" using rel_fireCallbackArray[OF sc mr, of s env object callbacks] f by simp
  have 2: "R s (snd (fireByType this env s1 abstract object gs))"
    by (rule sc_trans[OF sc 1 Cons.IH])
  show ?case using 1 2 f Cons.IH[of s] sc_refl[OF sc, of s]
    by (cases r) (simp_all add: g split: sum.splits)
qed

lemma rel_fireAfterResolvingCallbacks:
  assumes sc: "step_closed R" and mr: "methods_rel R this"
  shows "R s (snd (fireAfterResolvingCallbacks this env s abstract object))"
proof -
  obtain r s1 where f: "(if globalAfterResolvingCallbacks s \<noteq> []
            then fireCallbackArray this env s object (globalAfterResolvingCallbacks s)
            else (Inr (), s)) = (r, s1)"
    by (cases "(if globalAfterResolvingCallbacks s \<noteq> []
            then fireCallbackArray this env s object (globalAfterResolvingCallbacks s)
            else (Inr (), s))")
  have 1: "R s s1"
    using f rel_fireCallbackArray[OF sc mr, of s env object "globalAfterResolvingCallbacks s"]
      sc_refl[OF sc, of s]
    by (auto split: if_splits)
  have 2: "R s (snd (fireByType this env s1 abstract object (afterResolvingCallbacks s1)))"
    by (rule sc_trans[OF sc 1 rel_fireByType[OF sc mr]])
  show ?thesis unfolding fireAfterResolvingCallbacks_def f using 1 2 by (cases r) simp_all
qed

lemma rel_fireResolvingCallbacks:
  assumes sc: "step_closed R" and mr: "methods_rel R this"
  shows "R s (snd (fireResolvingCallbacks this env s abstract object))"
proof -
  obtain r s1 where f: "(if globalResolvingCallbacks s \<noteq> []
            then fireCallbackArray this env s object (globalResolvingCallbacks s)
            else (Inr (), s)) = (r, s1)"
    by (cases "(if globalResolvingCallbacks s \<noteq> []
            then fireCallbackArray this env s object (globalResolvingCallbacks s)
            else (Inr (), s))")
  have 1: "R s s1"
    using f rel_fireCallbackArray[OF sc mr, of s env object "globalResolvingCallbacks s"]
      sc_refl[OF sc, of s]
    by (auto split: if_splits)
  obtain r2 s2 where g: "fireByType this env s1 abstract object (resolvingCallbacks s1) = (r2, s2)"
    by (cases "fireByType this env s1 abstract object (resolvingCallbacks s1)")
  have 2: "R s s2"
    using sc_trans[OF sc 1 rel_fireByType[OF sc mr, of s1 env abstract object "resolvingCallbacks s1"]] g
    by simp
  have 3: "R s (snd (fireAfterResolvingCallbacks this env s2 abstract object))"
    by (rule sc_trans[OF sc 2 rel_fireAfterResolvingCallbacks[OF sc mr]])
  show ?thesis unfolding fireResolvingCallbacks_def f
    using 1 2 3 g by (cases r; cases r2) simp_all
qed

lemma rel_resolve_finish:
  assumes sc: "step_closed R" and mr: "methods_rel R this"
    and st: "R s0 s"
    and wr: "\<And>t object. R s0 t \<Longrightarrow> isShared t abstract \<and> \<not> ncb \<Longrightarrow>
               R s0 (t\<lparr>instances := (instances t)(abstract \<mapsto> object)\<rparr>)"
  shows "R s0 (snd (resolve_finish n this env s abstract ncb built))"
proof (cases "getExtenders n s abstract")
  case (Inl e)
  then show ?thesis using st by (simp add: resolve_finish_def)
next
  case exts: (Inr exts)
  obtain rx sx where x: "applyExtenders this env s exts built = (rx, sx)"
    by (cases "applyExtenders this env s exts built")
  have 0: "R s0 sx"
    using sc_trans[OF sc st rel_applyExtenders[OF sc mr, of s env exts built]] x by simp
  show ?thesis
  proof (cases rx)
    case (Inl e)
    then show ?thesis using exts x 0 by (simp add: resolve_finish_def)
  next
    case (Inr object)
    define s1 where "s1 = (if isShared sx abstract \<and> \<not> ncb
                         then sx\<lparr>instances := (instances sx)(abstract \<mapsto> object)\<rparr> else sx)"
    have 1: "R s0 s1" using wr[OF 0] 0 by (simp add: s1_def)
    obtain r s2 where f: "fireResolvingCallbacks this env s1 abstract object = (r, s2)"
      by (cases "fireResolvingCallbacks this env s1 abstract object")
    have 2: "R s0 s2"
      using sc_trans[OF sc 1 rel_fireResolvingCallbacks[OF sc mr, of s1 env abstract object]] f
      by simp
    let ?s3 = "s2\<lparr>resolved_map := (resolved_map s2)(abstract \<mapsto> True)\<rparr>"
    have 3: "R s0 ?s3" by (rule sc_trans[OF sc 2 sc_res[OF sc]])
    have 4: "R s0 (?s3\<lparr>with_frames := butlast (with_frames ?s3)\<rparr>)"
      by (rule sc_trans[OF sc 3 sc_with[OF sc]])
    show ?thesis using exts Inr x f 2 4
      by (cases r) (simp_all add: resolve_finish_def s1_def[symmetric] Let_def)
  qed
qed

lemma resolve_alias_fault:
  "getAlias n s abstract0 = Inl e \<Longrightarrow> resolve n this env s abstract0 parameters = (Inl e, s)"
  by (simp add: resolve_def)

lemma resolve_cached:
  "getAlias n s abstract0 = Inr abstract \<Longrightarrow> instances s abstract = Some v \<Longrightarrow>
   \<not> needsContextualBuild s abstract parameters \<Longrightarrow>
   resolve n this env s abstract0 parameters = (Inr v, s)"
  by (simp add: resolve_def)

lemma resolve_fresh:
  assumes "getAlias n s abstract0 = Inr abstract"
    and "instances s abstract = None \<or> needsContextualBuild s abstract parameters"
    and "s1 = s\<lparr>with_frames := with_frames s @ [parameters]\<rparr>"
    and "c = getConcrete s1 abstract"
    and "(if isBuildable c abstract then this_build this s1 c
          else this_make this s1 c (PArr [])) = (r, s2)"
  shows "resolve n this env s abstract0 parameters =
     (case r of
        Inl e \<Rightarrow> (Inl e, s2)
      | Inr object \<Rightarrow>
          resolve_finish n this env s2 abstract (needsContextualBuild s abstract parameters)
            object)"
proof -
  have "resolve n this env s abstract0 parameters =
     (case (if isBuildable c abstract then this_build this s1 c
          else this_make this s1 c (PArr [])) of
        (Inl e, s2) \<Rightarrow> (Inl e, s2)
      | (Inr object, s2) \<Rightarrow>
          resolve_finish n this env s2 abstract (needsContextualBuild s abstract parameters)
            object)"
    using assms(1,2) unfolding resolve_def Let_def assms(3,4) by auto
  then show ?thesis unfolding assms(5) by (cases r) simp_all
qed

lemma rel_resolve:
  assumes sc: "step_closed R" and cc: "cache_closed R" and mr: "methods_rel R this"
  shows "R s (snd (resolve n this env s abstract0 parameters))"
proof (cases "getAlias n s abstract0")
  case (Inl e)
  then show ?thesis by (simp add: resolve_alias_fault sc_refl[OF sc])
next
  case (Inr abstract)
  show ?thesis
  proof (cases "instances s abstract = None \<or> needsContextualBuild s abstract parameters")
    case False
    then show ?thesis using Inr by (auto simp add: resolve_cached sc_refl[OF sc])
  next
    case True
    define s1 where "s1 = s\<lparr>with_frames := with_frames s @ [parameters]\<rparr>"
    define c where "c = getConcrete s1 abstract"
    have 1: "R s s1" by (simp add: s1_def sc_with[OF sc])
    obtain r s2 where b: "(if isBuildable c abstract then this_build this s1 c
                           else this_make this s1 c (PArr [])) = (r, s2)"
      by (cases "(if isBuildable c abstract then this_build this s1 c
                           else this_make this s1 c (PArr []))")
    have "R s1 s2" using b mr_make[OF mr] mr_build[OF mr] by (auto split: if_splits)
    then have 2: "R s s2" by (rule sc_trans[OF sc 1])
    have 3: "R s (snd (resolve_finish n this env s2 abstract
                  (needsContextualBuild s abstract parameters) object))" for object
    proof (rule rel_resolve_finish[OF sc mr 2])
      fix t ob
      assume t: "R s t"
      assume "isShared t abstract \<and> \<not> needsContextualBuild s abstract parameters"
      then have "instances s abstract = None" using True by simp
      then show "R s (t\<lparr>instances := (instances t)(abstract \<mapsto> ob)\<rparr>)"
        by (rule sc_inst[OF cc t])
    qed
    have unf: "resolve n this env s abstract0 parameters =
       (case r of Inl e \<Rightarrow> (Inl e, s2) | Inr object \<Rightarrow>
          resolve_finish n this env s2 abstract (needsContextualBuild s abstract parameters)
            object)"
      by (rule resolve_fresh[OF Inr True s1_def c_def b])
    show ?thesis using 2 3 by (cases r) (simp_all add: unf)
  qed
qed

lemma rel_counted:
  assumes sc: "step_closed R" and st: "R s (snd out)"
  shows "R s (snd (counted out))"
proof (cases out)
  case (Pair r t)
  show ?thesis
  proof (cases r)
    case (Inl e)
    then show ?thesis using Pair sc_trans[OF sc _ sc_thrown[OF sc, of t]] st
      by (simp add: counted_def)
  next
    case (Inr v)
    then show ?thesis using Pair st by (simp add: counted_def)
  qed
qed


lemma rel_container_methods:
  assumes sc: "step_closed R" and cc: "cache_closed R"
  shows "methods_rel R (container_methods n env)"
proof (induction n)
  case 0
  show ?case by (simp add: methods_rel_def counted_def sc_thrown[OF sc])
next
  case (Suc n)
  show ?case
    using rel_counted[OF sc rel_resolve[OF sc cc Suc]] rel_counted[OF sc rel_build[OF sc Suc]]
    by (simp add: methods_rel_def)
qed

lemma rel_make:
  "step_closed R \<Longrightarrow> cache_closed R \<Longrightarrow> R s (snd (make n env s abstract parameters))"
  using rel_container_methods[of R n env] by (simp add: make_def methods_rel_def)

lemma step_closed_same_registries: "step_closed same_registries"
  by (simp add: step_closed_def same_registries_def)

lemma cache_closed_same_registries: "cache_closed same_registries"
  by (simp add: cache_closed_def same_registries_def)

lemma make_same_registries: "same_registries s (snd (make n env s abstract parameters))"
  by (rule rel_make[OF step_closed_same_registries cache_closed_same_registries])

lemma mr_same_registries: "methods_rel same_registries (container_methods n env)"
  by (rule rel_container_methods[OF step_closed_same_registries cache_closed_same_registries])

section \<open>Primitive dependencies\<close>

text \<open>
  C10: a default value that is \<open>null\<close> or \<open>undefined\<close> is no default. When the contextual
  lookup for the parameter name finds nothing (\<open>undefined\<close>) or finds a falsy override
  (\<open>null\<close>, \<open>0\<close>, the empty string, \<open>false\<close>), the override is not used: a parameter
  whose descriptor value is \<open>null\<close> or \<open>undefined\<close> fails with the unresolvable-primitive
  fault, and any other descriptor value is injected.
\<close>

theorem resolvePrimitive_null_default:
  assumes "c = getContextualConcrete s (VStr (getName p))"
      and "c = VUndefined \<or> c = VNull \<or> c = VNum 0 \<or> c = VStr [] \<or> c = VBool False"
  shows "(isNullOrUndefined (p_value p) \<longrightarrow>
            resolvePrimitive this env s p = (Inl (unresolvablePrimitive p), s))
       \<and> (\<not> isNullOrUndefined (p_value p) \<longrightarrow>
            resolvePrimitive this env s p = (Inr (p_value p), s))"
proof -
  have "\<not> truthy (getContextualConcrete s (VStr (getName p)))"
    using assms by auto
  then show ?thesis
    by (simp add: resolvePrimitive_def isDefaultValueAvailable_def getDefaultValue_def)
qed

lemma ex_falsy_lookup: "getContextualConcrete ex_falsy_override (VStr ''dsn'') = VNum 0"
  by (simp add: ex_falsy_override_def getContextualConcrete_def findInContextualBindings_def
      NestedMap_has_def NestedMap_get_def Arr_last_def new_container_def ex_defs
      isNullOrUndefined_def isUndefined_def)

theorem resolvePrimitive_null_default_witness:
  "getContextualConcrete ex_falsy_override (VStr (getName ex_dsn)) = VNum 0
   \<and> isNullOrUndefined (p_value ex_dsn)
   \<and> resolvePrimitive (container_methods 1 (example_env VNull)) (example_env VNull)
        ex_falsy_override ex_dsn
      = (Inl (BindingResolutionError (UnresolvablePrimitive ''dsn'')), ex_falsy_override)"
proof -
  have n: "getName ex_dsn = ''dsn''" by (simp add: getName_def ex_dsn_def)
  have c: "VNum 0 = getContextualConcrete ex_falsy_override (VStr (getName ex_dsn))"
    by (simp add: n ex_falsy_lookup)
  have d: "isNullOrUndefined (p_value ex_dsn)"
    by (simp add: ex_dsn_def isNullOrUndefined_def)
  have u: "unresolvablePrimitive ex_dsn = BindingResolutionError (UnresolvablePrimitive ''dsn'')"
    by (simp add: unresolvablePrimitive_def n)
  show ?thesis
    using resolvePrimitive_null_default[OF c, of "container_methods 1 (example_env VNull)"
        "example_env VNull"] c d u
    by simp
qed

section \<open>Class dependencies\<close>

lemma ex_make_Repository:
  "this_make (container_methods 2 (example_env d)) new_container ex_Repository (PArr [])
     = (Inl (BindingResolutionError (UnresolvablePrimitive ''dsn'')),
        new_container\<lparr>with_frames := [PArr []], buildStack := [ex_Repository], thrown := 2\<rparr>)"
  by (simp add: eval_nat_numeral run_defs ex_defs)

text \<open>
  C4 as stated fails: the nested \<open>make(Repository)\<close> fails with the unresolvable-primitive
  fault for \<open>dsn\<close>, which is not a not-instantiable condition, and \<open>_resolveClass\<close> swallows
  it all the same and returns the default of the \<open>repo\<close> parameter.
\<close>

theorem unresolvable_primitive_swallowed:
  "this_make (container_methods 2 (example_env (VStr ''d''))) new_container ex_Repository (PArr [])
     = (Inl (BindingResolutionError (UnresolvablePrimitive ''dsn'')),
        new_container\<lparr>with_frames := [PArr []], buildStack := [ex_Repository], thrown := 2\<rparr>)
   \<and> resolveClass (container_methods 2 (example_env (VStr ''d''))) (example_env (VStr ''d''))
        new_container (ex_repo (VStr ''d''))
     = (Inr (VStr ''d''),
        new_container\<lparr>with_frames := [PArr []], buildStack := [ex_Repository], thrown := 2\<rparr>)"
  by (simp add: eval_nat_numeral run_defs ex_defs)

text \<open>
  C4, amended: when the nested \<open>make\<close> of a class-typed parameter fails with a
  \<open>BindingResolutionError\<close> (not instantiable, unresolvable primitive or missing parameter
  type, wherever in the graph it arose) and the descriptor has a default value, the fault
  is swallowed and the default is the dependency; a fault of any other class, and any
  fault when there is no default, goes to the caller unchanged.
\<close>

theorem resolveClass_fallback:
  assumes "getClass p = Some r"
      and "this_make this s (makeTarget r) (PArr []) = (Inl e, s1)"
  shows "(isBindingResolutionError e \<and> isDefaultValueAvailable p \<longrightarrow>
            resolveClass this env s p = (Inr (getDefaultValue p), s1))
       \<and> (\<not> (isBindingResolutionError e \<and> isDefaultValueAvailable p) \<longrightarrow>
            resolveClass this env s p = (Inl e, s1))"
  using assms by (simp add: resolveClass_def)

theorem resolveClass_fallback_witness:
  "getClass ex_logger = Some (FromInterface ex_Logger)
   \<and> this_make (container_methods 2 (example_env VNull)) new_container
        (makeTarget (FromInterface ex_Logger)) (PArr [])
     = (Inl (BindingResolutionError (NotInstantiable ex_Logger [])),
        new_container\<lparr>with_frames := [PArr []], thrown := 2\<rparr>)
   \<and> resolveClass (container_methods 2 (example_env VNull)) (example_env VNull)
        new_container ex_logger
     = (Inr (VStr ''console''), new_container\<lparr>with_frames := [PArr []], thrown := 2\<rparr>)"
proof -
  have g: "getClass ex_logger = Some (FromInterface ex_Logger)"
    by (simp add: getClass_def ex_logger_def)
  have m: "this_make (container_methods 2 (example_env VNull)) new_container
        (makeTarget (FromInterface ex_Logger)) (PArr [])
     = (Inl (BindingResolutionError (NotInstantiable ex_Logger [])),
        new_container\<lparr>with_frames := [PArr []], thrown := 2\<rparr>)"
    by (simp add: eval_nat_numeral run_defs ex_defs)
  have d: "isDefaultValueAvailable ex_logger \<and> getDefaultValue ex_logger = VStr ''console''"
    by (simp add: isDefaultValueAvailable_def getDefaultValue_def ex_logger_def
        isNullOrUndefined_def)
  show ?thesis
    using resolveClass_fallback[OF g m, of "example_env VNull"] g m d by simp
qed

section \<open>Tags\<close>

lemma tag_push_tags:
  "tags (tag_push s t abstracts) =
     (if abstracts = [] then tags s
      else (tags s)(t \<mapsto> (case tags s t of Some members \<Rightarrow> members | None \<Rightarrow> []) @ abstracts))"
proof (induction abstracts arbitrary: s)
  case Nil
  show ?case by simp
next
  case (Cons a rest)
  show ?case by (auto simp add: Cons.IH fun_eq_iff)
qed

lemma tag_single_fresh:
  "tags s g = None \<Longrightarrow> tags (tag s [A, B] [g]) g = Some [A, B]"
  by (simp add: tag_push_tags Let_def)

text \<open>
  C8: after \<open>tag([A, B], [g])\<close> on a tag \<open>g\<close> that had no members, \<open>tagged(g)\<close> makes
  \<open>A\<close> and then \<open>B\<close>, each in the state the one before left, and returns the two
  results in that order (or the first fault); \<open>tagged\<close> of a tag that was never
  registered returns the empty list and changes nothing.
\<close>

theorem tagged_after_tag:
  assumes "tags s g = None"
  shows "tagged n env (tag s [A, B] [g]) g =
           (case make n env (tag s [A, B] [g]) A (PArr []) of
              (Inl e, s1) \<Rightarrow> (Inl e, s1)
            | (Inr a, s1) \<Rightarrow>
                (case make n env s1 B (PArr []) of
                   (Inl e, s2) \<Rightarrow> (Inl e, s2)
                 | (Inr b, s2) \<Rightarrow> (Inr [a, b], s2)))
         \<and> tagged n env s g = (Inr [], s)"
  using assms
  by (simp add: tagged_def tag_single_fresh split: prod.splits sum.splits)

theorem tagged_after_tag_witness:
  "tags new_container ''g'' = None
   \<and> fst (tagged 2 (example_env VNull) (tag new_container [ex_Clock, ex_Clock] [''g'']) ''g'')
       = Inr [VObj 0 ex_Clock [], VObj 1 ex_Clock []]
   \<and> tagged 2 (example_env VNull) new_container ''g'' = (Inr [], new_container)"
proof -
  let ?s1 = "new_container\<lparr>tags := [''g'' \<mapsto> [ex_Clock, ex_Clock]],
               resolved_map := [ex_Clock \<mapsto> True], next_id := 1\<rparr>"
  have t: "tags new_container ''g'' = None" by (simp add: new_container_def)
  have m1: "make 2 (example_env VNull) (tag new_container [ex_Clock, ex_Clock] [''g''])
              ex_Clock (PArr [])
         = (Inr (VObj 0 ex_Clock []), ?s1)"
    by (simp add: eval_nat_numeral run_defs ex_defs)
  have m2: "make 2 (example_env VNull) ?s1 ex_Clock (PArr [])
         = (Inr (VObj 1 ex_Clock []), ?s1\<lparr>next_id := 2\<rparr>)"
    by (simp add: eval_nat_numeral run_defs ex_defs)
  have "tagged 2 (example_env VNull) (tag new_container [ex_Clock, ex_Clock] [''g'']) ''g''
          = (Inr [VObj 0 ex_Clock [], VObj 1 ex_Clock []], ?s1\<lparr>next_id := 2\<rparr>)
        \<and> tagged 2 (example_env VNull) new_container ''g'' = (Inr [], new_container)"
    using tagged_after_tag[OF t, of 2 "example_env VNull" ex_Clock ex_Clock]
    unfolding m1 prod.case sum.case m2 by simp
  then show ?thesis using t by simp
qed

section \<open>Binding without a concrete\<close>

lemma rel_fireRebound:
  assumes sc: "step_closed R" and mr: "methods_rel R this"
    and lg: "\<And>s callback v. R s (s\<lparr>cb_log := cb_log s @ [Rebound callback v]\<rparr>)"
  shows "R s (snd (fireRebound this env s inst callbacks))"
proof (induction callbacks arbitrary: s)
  case Nil
  show ?case by (simp add: sc_refl[OF sc])
next
  case (Cons cb cbs)
  let ?s0 = "s\<lparr>cb_log := cb_log s @ [Rebound cb inst]\<rparr>"
  obtain r s1 where f: "run_script (user_callback env cb inst) this ?s0 = (r, s1)"
    by (cases "run_script (user_callback env cb inst) this ?s0")
  have 1: "R s s1"
    using sc_trans[OF sc lg rel_run_script[OF sc mr, of ?s0 "user_callback env cb inst"]] f
    by simp
  show ?case
  proof (cases r)
    case (Inl e)
    then show ?thesis using f 1 by simp
  next
    case (Inr v)
    then show ?thesis using f sc_trans[OF sc 1 Cons.IH[of s1]] by simp
  qed
qed

lemma rebound_same_registries: "same_registries s (snd (rebound n env s abstract))"
proof -
  obtain r s1 where m: "make n env s abstract (PArr []) = (r, s1)"
    by (cases "make n env s abstract (PArr [])")
  have 1: "same_registries s s1" using make_same_registries[of s n env abstract "PArr []"] m by simp
  have 2: "same_registries s1 (snd (fireRebound (container_methods n env) env s1 inst callbacks))"
    for inst callbacks
    by (rule rel_fireRebound[OF step_closed_same_registries mr_same_registries])
       (simp add: same_registries_def)
  show ?thesis
    using 1 sc_trans[OF step_closed_same_registries 1 2]
    by (cases r) (simp_all add: rebound_def m)
qed

lemma rebound_bindings: "bindings (snd (rebound n env s abstract)) = bindings s"
  using rebound_same_registries[of s n env abstract] by (simp add: same_registries_def)

text \<open>
  C5: \<open>bind(abstract)\<close> with the concrete omitted. When the abstract is constructible,
  the record stored for it holds the closure of the abstract over itself and the shared
  flag given (whatever the rebound that may follow does). When it is not, the call fails
  with the \<open>BindingError\<close> and the binding records are the ones from before.
\<close>

theorem bind_without_concrete:
  assumes "isNullOrUndefined c0"
  shows "(isInstantiable abstract \<longrightarrow>
            bindings (snd (bind_concrete n env s abstract c0 is_shared)) abstract
              = Some \<lparr>b_concrete = getClosure abstract abstract, b_shared = is_shared\<rparr>)
       \<and> (\<not> isInstantiable abstract \<longrightarrow>
            fst (bind_concrete n env s abstract c0 is_shared) = Inl BindingError
            \<and> bindings (snd (bind_concrete n env s abstract c0 is_shared)) = bindings s)"
  using assms
  by (auto simp: bind_concrete_def Let_def dropStaleInstances_def rebound_bindings
      split: sum.splits)

theorem bind_without_concrete_witness:
  "isNullOrUndefined VUndefined \<and> isInstantiable ex_Clock \<and> \<not> isInstantiable (VStr ''clock'')
   \<and> bindings (snd (bind_concrete 2 (example_env VNull) new_container ex_Clock VUndefined False))
        ex_Clock = Some \<lparr>b_concrete = VClosure ex_Clock ex_Clock, b_shared = False\<rparr>
   \<and> fst (bind_concrete 2 (example_env VNull) new_container (VStr ''clock'') VUndefined False)
        = Inl BindingError
   \<and> bindings (snd (bind_concrete 2 (example_env VNull) new_container (VStr ''clock'') VUndefined
        False)) = bindings new_container"
proof -
  have u: "isNullOrUndefined VUndefined" by (simp add: isNullOrUndefined_def)
  have i: "isInstantiable ex_Clock" by (simp add: ex_Clock_def)
  have j: "\<not> isInstantiable (VStr ''clock'')" by simp
  show ?thesis
    using bind_without_concrete[OF u, of ex_Clock 2 "example_env VNull" new_container False]
      bind_without_concrete[OF u, of "VStr ''clock''" 2 "example_env VNull" new_container False]
      u i j
    by (simp add: getClosure_def)
qed

section \<open>The build stack and the parameter-override stack\<close>

text \<open>
  Nothing in \<open>build\<close> or \<open>_resolve\<close> pops a stack on the way out of a fault, so the balance
  is kept across the steps that return a value as long as no call has thrown, and only
  a prefix is kept otherwise. The lemmas follow the call structure again.
\<close>

lemma kept_refl: "stacks_kept s (r, s)"
  by (simp add: stacks_kept_def)

lemma kept_fault: "stacks_kept s (Inl e, t) \<Longrightarrow> stacks_kept s (Inl e', t)"
  by (simp add: stacks_kept_def)

lemma kept_call: "call_kept s out \<Longrightarrow> stacks_kept s out"
  by (simp add: call_kept_def)

lemma kept_caught: "call_kept s (Inl e, t) \<Longrightarrow> stacks_kept s (r, t)"
  by (auto simp: call_kept_def stacks_kept_def)

lemma kept_then:
  assumes "stacks_kept s (Inr v, s1)" and "stacks_kept s1 (r, t)"
  shows "stacks_kept s (r, t)"
proof -
  obtain ws bs where 1: "with_frames s1 = with_frames s @ ws" "buildStack s1 = buildStack s @ bs"
    using assms(1) by (auto simp: stacks_kept_def)
  obtain ws' bs' where 2: "with_frames t = with_frames s1 @ ws'" "buildStack t = buildStack s1 @ bs'"
    using assms(2) by (auto simp: stacks_kept_def)
  have 3: "thrown s \<le> thrown s1" "thrown s1 \<le> thrown t"
    using assms by (auto simp: stacks_kept_def)
  have 4: "with_frames t = with_frames s \<and> buildStack t = buildStack s"
    if "returned r" "thrown t = thrown s"
  proof -
    have "thrown s1 = thrown s" "thrown t = thrown s1" using 3 that(2) by auto
    then show ?thesis using assms that(1) by (auto simp: stacks_kept_def)
  qed
  show ?thesis using 1 2 3 4 by (auto simp: stacks_kept_def)
qed

lemma kept_after_call:
  assumes "call_kept s (r1, s1)" and "stacks_kept s1 (r, t)"
  shows "stacks_kept s (r, t)"
proof (cases r1)
  case (Inr v)
  then show ?thesis using assms kept_then[of s v s1 r t] by (simp add: call_kept_def)
next
  case (Inl e)
  then have lt: "thrown s < thrown s1" using assms(1) by (simp add: call_kept_def)
  obtain ws bs where 1: "with_frames s1 = with_frames s @ ws" "buildStack s1 = buildStack s @ bs"
    using assms(1) by (auto simp: call_kept_def stacks_kept_def)
  obtain ws' bs' where 2: "with_frames t = with_frames s1 @ ws'" "buildStack t = buildStack s1 @ bs'"
    using assms(2) by (auto simp: stacks_kept_def)
  have 3: "thrown s1 \<le> thrown t" using assms(2) by (auto simp: stacks_kept_def)
  show ?thesis using 1 2 3 lt by (auto simp: stacks_kept_def)
qed

lemma kept_same_before: "same_stacks s s1 \<Longrightarrow> stacks_kept s1 out \<Longrightarrow> stacks_kept s out"
  by (cases out) (simp add: stacks_kept_def same_stacks_def)

lemma kept_same_after:
  "stacks_kept s (r, t) \<Longrightarrow> same_stacks t t' \<Longrightarrow> returned r' = returned r \<Longrightarrow>
   stacks_kept s (r', t')"
  by (simp add: stacks_kept_def same_stacks_def)

lemma mk_make: "methods_kept this \<Longrightarrow> call_kept s (this_make this s a p)"
  by (simp add: methods_kept_def)

lemma mk_build: "methods_kept this \<Longrightarrow> call_kept s (this_build this s c)"
  by (simp add: methods_kept_def)

lemma kept_run_script:
  assumes mk: "methods_kept this"
  shows "stacks_kept s (run_script script this s)"
proof (induction script arbitrary: s)
  case (Return v)
  show ?case by (simp add: kept_refl)
next
  case (Throw e)
  show ?case by (simp add: kept_refl)
next
  case (Inspect k)
  show ?case using Inspect[of "k s" s] by simp
next
  case (CallMake a p k)
  obtain r s1 where m: "this_make this s a p = (r, s1)" by (cases "this_make this s a p")
  obtain r' t where f: "run_script (k r) this s1 = (r', t)" by (cases "run_script (k r) this s1")
  have 1: "call_kept s (r, s1)" using mk_make[OF mk, of s a p] m by simp
  have 2: "stacks_kept s1 (r', t)" using CallMake[of "k r" s1] f by simp
  show ?case using kept_after_call[OF 1 2] by (simp add: m f)
next
  case (CallBuild c k)
  obtain r s1 where m: "this_build this s c = (r, s1)" by (cases "this_build this s c")
  obtain r' t where f: "run_script (k r) this s1 = (r', t)" by (cases "run_script (k r) this s1")
  have 1: "call_kept s (r, s1)" using mk_build[OF mk, of s c] m by simp
  have 2: "stacks_kept s1 (r', t)" using CallBuild[of "k r" s1] f by simp
  show ?case using kept_after_call[OF 1 2] by (simp add: m f)
qed

lemma kept_callConcrete:
  "methods_kept this \<Longrightarrow> stacks_kept s (callConcrete this env s c ps)"
  by (cases c)
     (simp_all add: callConcrete_def kept_refl kept_run_script kept_call mk_make mk_build)

lemma kept_resolvePrimitive:
  "methods_kept this \<Longrightarrow> stacks_kept s (resolvePrimitive this env s p)"
  by (simp add: resolvePrimitive_def Let_def kept_callConcrete kept_refl)

lemma kept_resolveClass:
  assumes mk: "methods_kept this"
  shows "stacks_kept s (resolveClass this env s p)"
proof (cases "getClass p")
  case None
  then show ?thesis by (simp add: resolveClass_def kept_refl)
next
  case (Some reflector)
  obtain r s1 where m: "this_make this s (makeTarget reflector) (PArr []) = (r, s1)"
    by (cases "this_make this s (makeTarget reflector) (PArr [])")
  have c: "call_kept s (r, s1)" using mk_make[OF mk, of s "makeTarget reflector" "PArr []"] m by simp
  show ?thesis
  proof (cases r)
    case (Inl e)
    have 1: "stacks_kept s (Inr (getDefaultValue p) :: error + val, s1)"
      by (rule kept_caught[of s e]) (use c Inl in simp)
    have 2: "stacks_kept s (Inl e :: error + val, s1)"
      using kept_call[OF c] Inl by simp
    show ?thesis using Some m Inl 1 2 by (simp add: resolveClass_def)
  next
    case (Inr v)
    then show ?thesis using Some m kept_call[OF c] by (simp add: resolveClass_def)
  qed
qed

lemma kept_resolveDependencies:
  assumes mk: "methods_kept this"
  shows "stacks_kept s (resolveDependencies this env s deps)"
proof (induction deps arbitrary: s)
  case Nil
  show ?case by (simp add: kept_refl)
next
  case (Cons d ds)
  obtain r1 s1 where one: "(if hasParameterOverride s d
            then (Inr (getParameterOverride s d), s)
            else if isBuiltin d then resolvePrimitive this env s d
            else resolveClass this env s d) = (r1, s1)"
    by (cases "(if hasParameterOverride s d
            then (Inr (getParameterOverride s d), s)
            else if isBuiltin d then resolvePrimitive this env s d
            else resolveClass this env s d)")
  have k1: "stacks_kept s (r1, s1)"
    using one kept_resolvePrimitive[OF mk, of s env d] kept_resolveClass[OF mk, of s env d]
      kept_refl[of s "Inr (getParameterOverride s d)"]
    by (auto split: if_splits)
  have unf: "resolveDependencies this env s (d # ds) =
      (case r1 of Inl e \<Rightarrow> (Inl e, s1)
       | Inr v \<Rightarrow> (case resolveDependencies this env s1 ds of
             (Inl e, s2) \<Rightarrow> (Inl e, s2)
           | (Inr vs, s2) \<Rightarrow> (Inr (v # vs), s2)))"
    unfolding resolveDependencies.simps one by (cases r1) simp_all
  show ?case
  proof (cases r1)
    case (Inl e)
    then show ?thesis unfolding unf using k1 kept_fault[of s e s1 e] by simp
  next
    case (Inr v)
    obtain r2 s2 where rest: "resolveDependencies this env s1 ds = (r2, s2)"
      by (cases "resolveDependencies this env s1 ds")
    have k2: "stacks_kept s1 (r2, s2)" using Cons.IH[of s1] rest by simp
    have k: "stacks_kept s (r2, s2)" by (rule kept_then[OF _ k2, of s v]) (use k1 Inr in simp)
    show ?thesis
    proof (cases r2)
      case (Inl e)
      then show ?thesis unfolding unf using Inr rest k kept_fault[of s e s2 e] by simp
    next
      case vs: (Inr vs)
      then show ?thesis unfolding unf using Inr rest
          kept_same_after[OF k, of s2 "Inr (v # vs) :: error + val list"]
        by (simp add: same_stacks_def)
    qed
  qed
qed

lemma kept_popped:
  assumes "stacks_kept (s\<lparr>buildStack := buildStack s @ [c]\<rparr>) (Inr v, t)"
  shows "stacks_kept s
           (Inr w, t\<lparr>buildStack := butlast (buildStack t), next_id := i\<rparr>)"
proof -
  obtain ws bs where 1: "with_frames t = with_frames s @ ws"
      "buildStack t = (buildStack s @ [c]) @ bs"
    using assms by (auto simp: stacks_kept_def)
  have 2: "butlast (buildStack t) = buildStack s @ butlast (c # bs)"
    using 1(2) by (simp add: butlast_append)
  have 3: "thrown s \<le> thrown t" using assms by (simp add: stacks_kept_def)
  have 4: "thrown t = thrown s \<longrightarrow> with_frames t = with_frames s \<and> buildStack t = buildStack s @ [c]"
    using assms by (simp add: stacks_kept_def)
  show ?thesis using 1(1) 2 3 4 by (auto simp: stacks_kept_def)
qed

lemma kept_pushed:
  assumes "stacks_kept (s\<lparr>buildStack := buildStack s @ [c]\<rparr>) (Inl e, t)"
  shows "stacks_kept s (Inl e', t)"
  using assms by (auto simp: stacks_kept_def)

lemma kept_build:
  assumes mk: "methods_kept this"
  shows "stacks_kept s (build this env s c)"
proof (cases "\<not> isInstantiable c \<and> instanceofFunction c")
  case True
  then show ?thesis by (simp add: build_def kept_callConcrete[OF mk])
next
  case nf: False
  show ?thesis
  proof (cases "reflect_instantiable env c")
    case False
    then show ?thesis using nf by (auto simp add: build_def kept_refl)
  next
    case inst: True
    let ?s1 = "s\<lparr>buildStack := buildStack s @ [c]\<rparr>"
    show ?thesis
    proof (cases "reflect_parameters env c = []")
      case True
      have "stacks_kept s (Inr (VObj (next_id s) c []),
              ?s1\<lparr>buildStack := butlast (buildStack ?s1), next_id := Suc (next_id s)\<rparr>)"
        by (rule kept_popped[OF kept_refl])
      then show ?thesis using nf inst True by (auto simp add: build_def Let_def)
    next
      case False
      obtain r t where rd: "resolveDependencies this env ?s1 (reflect_parameters env c) = (r, t)"
        by (cases "resolveDependencies this env ?s1 (reflect_parameters env c)")
      have d: "stacks_kept ?s1 (r, t)"
        using kept_resolveDependencies[OF mk, of ?s1 env "reflect_parameters env c"] rd by simp
      show ?thesis
      proof (cases r)
        case (Inl e)
        then show ?thesis using nf inst False rd kept_pushed[of s c e t e] d
          by (auto simp add: build_def Let_def)
      next
        case (Inr vs)
        then show ?thesis
          using nf inst False rd d
            kept_popped[of s c vs t "VObj (next_id t) c vs" "Suc (next_id t)"]
          by (auto simp add: build_def Let_def)
      qed
    qed
  qed
qed

lemma kept_applyExtenders:
  assumes mk: "methods_kept this"
  shows "stacks_kept s (applyExtenders this env s exts object)"
proof (induction exts arbitrary: s object)
  case Nil
  show ?case by (simp add: kept_refl)
next
  case (Cons x xs)
  obtain r s1 where f: "run_script (user_extender env x object) this s = (r, s1)"
    by (cases "run_script (user_extender env x object) this s")
  have 1: "stacks_kept s (r, s1)"
    using kept_run_script[OF mk, of s "user_extender env x object"] f by simp
  show ?case
  proof (cases r)
    case (Inl e)
    then show ?thesis using f 1 by simp
  next
    case (Inr v)
    obtain r2 s2 where g: "applyExtenders this env s1 xs v = (r2, s2)"
      by (cases "applyExtenders this env s1 xs v")
    have 2: "stacks_kept s1 (r2, s2)" using Cons.IH[of s1 v] g by simp
    have "stacks_kept s (r2, s2)" by (rule kept_then[OF _ 2, of s v]) (use 1 Inr in simp)
    then show ?thesis using f Inr g by simp
  qed
qed

lemma kept_fireCallbackArray:
  assumes mk: "methods_kept this"
  shows "stacks_kept s (fireCallbackArray this env s object callbacks)"
proof (induction callbacks arbitrary: s)
  case Nil
  show ?case by (simp add: kept_refl)
next
  case (Cons cb cbs)
  let ?s0 = "s\<lparr>cb_log := cb_log s @ [Resolving cb object]\<rparr>"
  obtain r s1 where f: "run_script (user_callback env cb object) this ?s0 = (r, s1)"
    by (cases "run_script (user_callback env cb object) this ?s0")
  have 1: "stacks_kept s (r, s1)"
    using kept_same_before[OF _ kept_run_script[OF mk, of ?s0 "user_callback env cb object"]] f
    by (simp add: same_stacks_def)
  show ?case
  proof (cases r)
    case (Inl e)
    have "stacks_kept s (Inl e :: error + unit, s1)"
      by (rule kept_fault[of s e]) (use 1 Inl in simp)
    then show ?thesis using f Inl by simp
  next
    case (Inr v)
    obtain r2 s2 where g: "fireCallbackArray this env s1 object cbs = (r2, s2)"
      by (cases "fireCallbackArray this env s1 object cbs")
    have 2: "stacks_kept s1 (r2, s2)" using Cons.IH[of s1] g by simp
    have "stacks_kept s (r2, s2)" by (rule kept_then[OF _ 2, of s v]) (use 1 Inr in simp)
    then show ?thesis using f Inr g by simp
  qed
qed

lemma kept_fireByType:
  assumes mk: "methods_kept this"
  shows "stacks_kept s (fireByType this env s abstract object groups)"
proof (induction groups arbitrary: s)
  case Nil
  show ?case by (simp add: kept_refl)
next
  case (Cons g gs)
  obtain ty callbacks where g: "g = (ty, callbacks)" by (cases g)
  obtain r s1 where f: "fireCallbackArray this env s object callbacks = (r, s1)"
    by (cases "fireCallbackArray this env s object callbacks")
  have 1: "stacks_kept s (r, s1)"
    using kept_fireCallbackArray[OF mk, of s env object callbacks] f by simp
  have 2: "stacks_kept s (fireByType this env s1 abstract object gs)" if "r = Inr u" for u
  proof -
    obtain r2 s2 where h: "fireByType this env s1 abstract object gs = (r2, s2)"
      by (cases "fireByType this env s1 abstract object gs")
    have 3: "stacks_kept s1 (r2, s2)" using Cons.IH[of s1] h by simp
    have "stacks_kept s (r2, s2)" by (rule kept_then[OF _ 3, of s u]) (use 1 that in simp)
    then show ?thesis by (simp add: h)
  qed
  show ?case using 1 2 f Cons.IH[of s]
    by (cases r) (simp_all add: g kept_refl split: sum.splits)
qed

lemma kept_fireAfterResolvingCallbacks:
  assumes mk: "methods_kept this"
  shows "stacks_kept s (fireAfterResolvingCallbacks this env s abstract object)"
proof -
  obtain r s1 where f: "(if globalAfterResolvingCallbacks s \<noteq> []
            then fireCallbackArray this env s object (globalAfterResolvingCallbacks s)
            else (Inr (), s)) = (r, s1)"
    by (cases "(if globalAfterResolvingCallbacks s \<noteq> []
            then fireCallbackArray this env s object (globalAfterResolvingCallbacks s)
            else (Inr (), s))")
  have 1: "stacks_kept s (r, s1)"
    using f kept_fireCallbackArray[OF mk, of s env object "globalAfterResolvingCallbacks s"]
      kept_refl[of s "Inr ()"]
    by (auto split: if_splits)
  show ?thesis
  proof (cases r)
    case (Inl e)
    then show ?thesis unfolding fireAfterResolvingCallbacks_def f using 1 by simp
  next
    case (Inr u)
    obtain r2 s2 where h: "fireByType this env s1 abstract object (afterResolvingCallbacks s1) = (r2, s2)"
      by (cases "fireByType this env s1 abstract object (afterResolvingCallbacks s1)")
    have 2: "stacks_kept s1 (r2, s2)"
      using kept_fireByType[OF mk, of s1 env abstract object "afterResolvingCallbacks s1"] h
      by simp
    have "stacks_kept s (r2, s2)" by (rule kept_then[OF _ 2, of s u]) (use 1 Inr in simp)
    then show ?thesis unfolding fireAfterResolvingCallbacks_def f using Inr h by simp
  qed
qed

lemma kept_fireResolvingCallbacks:
  assumes mk: "methods_kept this"
  shows "stacks_kept s (fireResolvingCallbacks this env s abstract object)"
proof -
  obtain r s1 where f: "(if globalResolvingCallbacks s \<noteq> []
            then fireCallbackArray this env s object (globalResolvingCallbacks s)
            else (Inr (), s)) = (r, s1)"
    by (cases "(if globalResolvingCallbacks s \<noteq> []
            then fireCallbackArray this env s object (globalResolvingCallbacks s)
            else (Inr (), s))")
  have 1: "stacks_kept s (r, s1)"
    using f kept_fireCallbackArray[OF mk, of s env object "globalResolvingCallbacks s"]
      kept_refl[of s "Inr ()"]
    by (auto split: if_splits)
  show ?thesis
  proof (cases r)
    case (Inl e)
    then show ?thesis unfolding fireResolvingCallbacks_def f using 1 by simp
  next
    case (Inr u)
    obtain r2 s2 where h: "fireByType this env s1 abstract object (resolvingCallbacks s1) = (r2, s2)"
      by (cases "fireByType this env s1 abstract object (resolvingCallbacks s1)")
    have k2: "stacks_kept s1 (r2, s2)"
      using kept_fireByType[OF mk, of s1 env abstract object "resolvingCallbacks s1"] h
      by simp
    have 2: "stacks_kept s (r2, s2)" by (rule kept_then[OF _ k2, of s u]) (use 1 Inr in simp)
    show ?thesis
    proof (cases r2)
      case (Inl e)
      then show ?thesis unfolding fireResolvingCallbacks_def f using Inr h 2 by simp
    next
      case u2: (Inr u2)
      obtain r3 s3 where a: "fireAfterResolvingCallbacks this env s2 abstract object = (r3, s3)"
        by (cases "fireAfterResolvingCallbacks this env s2 abstract object")
      have 3: "stacks_kept s2 (r3, s3)"
        using kept_fireAfterResolvingCallbacks[OF mk, of s2 env abstract object] a by simp
      have "stacks_kept s (r3, s3)" by (rule kept_then[OF _ 3, of s u2]) (use 2 u2 in simp)
      then show ?thesis unfolding fireResolvingCallbacks_def f using Inr h u2 a by simp
    qed
  qed
qed

lemma kept_frame_fault:
  "stacks_kept (s\<lparr>with_frames := with_frames s @ [p]\<rparr>) (r, t) \<Longrightarrow> stacks_kept s (Inl e, t)"
  by (auto simp: stacks_kept_def)

text \<open>
  The second half of \<open>_resolve\<close>, entered with the frame of the call on the override
  stack: a fault leaves the frame, and a return pops it.
\<close>

lemma kept_resolve_finish:
  assumes mk: "methods_kept this"
    and st: "stacks_kept (s\<lparr>with_frames := with_frames s @ [p]\<rparr>) (Inr v, u)"
  shows "stacks_kept s (resolve_finish n this env u abstract ncb built)"
proof -
  let ?s1 = "s\<lparr>with_frames := with_frames s @ [p]\<rparr>"
  show ?thesis
  proof (cases "getExtenders n u abstract")
    case (Inl e)
    then show ?thesis using kept_frame_fault[OF st] by (simp add: resolve_finish_def)
  next
    case exts: (Inr exts)
    obtain rx sx where x: "applyExtenders this env u exts built = (rx, sx)"
      by (cases "applyExtenders this env u exts built")
    have 0: "stacks_kept ?s1 (rx, sx)"
      using kept_then[OF st] kept_applyExtenders[OF mk, of u env exts built] x by simp
    show ?thesis
    proof (cases rx)
      case (Inl e)
      then show ?thesis using exts x kept_frame_fault[OF 0] by (simp add: resolve_finish_def)
    next
      case (Inr object)
      define s1 where "s1 = (if isShared sx abstract \<and> \<not> ncb
                         then sx\<lparr>instances := (instances sx)(abstract \<mapsto> object)\<rparr> else sx)"
      have 1: "stacks_kept ?s1 (Inr object, s1)"
        using kept_same_after[OF 0, of s1 "Inr object"] Inr by (simp add: s1_def same_stacks_def)
      obtain r s2 where f: "fireResolvingCallbacks this env s1 abstract object = (r, s2)"
        by (cases "fireResolvingCallbacks this env s1 abstract object")
      have 2: "stacks_kept ?s1 (r, s2)"
        using kept_then[OF 1] kept_fireResolvingCallbacks[OF mk, of s1 env abstract object] f
        by simp
      show ?thesis
      proof (cases r)
        case (Inl e)
        then show ?thesis using exts x Inr f kept_frame_fault[OF 2]
          by (simp add: resolve_finish_def s1_def[symmetric] Let_def)
      next
        case u: (Inr u')
        obtain ws bs where 3: "with_frames s2 = (with_frames s @ [p]) @ ws"
            "buildStack s2 = buildStack s @ bs"
          using 2 by (auto simp: stacks_kept_def)
        have 4: "thrown s \<le> thrown s2" using 2 by (simp add: stacks_kept_def)
        have 5: "thrown s2 = thrown s \<longrightarrow> with_frames s2 = with_frames s @ [p] \<and> buildStack s2 = buildStack s"
          using 2 u by (simp add: stacks_kept_def)
        have 6: "butlast (with_frames s2) = with_frames s @ butlast (p # ws)"
          using 3(1) by (simp add: butlast_append)
        have "stacks_kept s (Inr object :: error + val,
                s2\<lparr>resolved_map := (resolved_map s2)(abstract \<mapsto> True),
                   with_frames := butlast (with_frames s2)\<rparr>)"
          using 3(2) 4 5 6 by (auto simp: stacks_kept_def)
        then show ?thesis using exts x Inr f u
          by (simp add: resolve_finish_def s1_def[symmetric] Let_def)
      qed
    qed
  qed
qed

lemma kept_resolve:
  assumes mk: "methods_kept this"
  shows "stacks_kept s (resolve n this env s abstract0 parameters)"
proof (cases "getAlias n s abstract0")
  case (Inl e)
  then show ?thesis by (simp add: resolve_alias_fault kept_refl)
next
  case (Inr abstract)
  show ?thesis
  proof (cases "instances s abstract = None \<or> needsContextualBuild s abstract parameters")
    case False
    then show ?thesis using Inr by (auto simp add: resolve_cached kept_refl)
  next
    case True
    define s1 where "s1 = s\<lparr>with_frames := with_frames s @ [parameters]\<rparr>"
    define c where "c = getConcrete s1 abstract"
    obtain r s2 where b: "(if isBuildable c abstract then this_build this s1 c
                           else this_make this s1 c (PArr [])) = (r, s2)"
      by (cases "(if isBuildable c abstract then this_build this s1 c
                           else this_make this s1 c (PArr []))")
    have k: "stacks_kept s1 (r, s2)"
      using b kept_call[OF mk_make[OF mk, of s1 c "PArr []"]] kept_call[OF mk_build[OF mk, of s1 c]]
      by (auto split: if_splits)
    have unf: "resolve n this env s abstract0 parameters =
       (case r of Inl e \<Rightarrow> (Inl e, s2) | Inr object \<Rightarrow>
          resolve_finish n this env s2 abstract (needsContextualBuild s abstract parameters)
            object)"
      by (rule resolve_fresh[OF Inr True s1_def c_def b])
    show ?thesis
    proof (cases r)
      case (Inl e)
      have "stacks_kept s (Inl e :: error + val, s2)"
        using k Inl by (auto simp: stacks_kept_def s1_def)
      then show ?thesis by (simp add: unf Inl)
    next
      case ob: (Inr object)
      show ?thesis unfolding unf ob sum.case
        by (rule kept_resolve_finish[OF mk, of s parameters object]) (use k ob s1_def in simp)
    qed
  qed
qed

lemma kept_counted: "stacks_kept s out \<Longrightarrow> call_kept s (counted out)"
  by (auto simp: stacks_kept_def call_kept_def counted_def split: prod.splits sum.splits)

lemma kept_container_methods: "methods_kept (container_methods n env)"
proof (induction n)
  case 0
  show ?case by (simp add: methods_kept_def kept_counted[OF kept_refl])
next
  case (Suc n)
  show ?case using kept_counted[OF kept_resolve[OF Suc]] kept_counted[OF kept_build[OF Suc]]
    by (simp add: methods_kept_def)
qed

lemma ex_make_Logger:
  "make 2 (example_env d) new_container ex_Logger (PArr [])
     = (Inl (BindingResolutionError (NotInstantiable ex_Logger [])),
        new_container\<lparr>with_frames := [PArr []], thrown := 2\<rparr>)"
  by (simp add: eval_nat_numeral run_defs ex_defs)

lemma ex_make_Service:
  "make 4 (example_env (VStr ''d'')) new_container ex_Service (PArr [])
     = (Inr (VObj 0 ex_Service [VStr ''d'']),
        new_container\<lparr>with_frames := [PArr []], buildStack := [ex_Service],
           resolved_map := [ex_Service \<mapsto> True], next_id := 1, thrown := 2\<rparr>)"
  by (simp add: eval_nat_numeral run_defs ex_defs)

text \<open>
  C1 as stated fails. On a new container \<open>make(Logger)\<close> throws the not-instantiable
  fault and leaves its frame on the override stack. \<open>make(Service)\<close> returns an object
  (the fault of the nested \<open>make(Repository)\<close> is swallowed for the default of \<open>repo\<close>),
  and leaves one frame on the override stack and one entry on the build stack.
\<close>

theorem stacks_left_after_fault:
  "fst (make 2 (example_env (VStr ''d'')) new_container ex_Logger (PArr []))
     = Inl (BindingResolutionError (NotInstantiable ex_Logger []))
   \<and> length (with_frames (snd (make 2 (example_env (VStr ''d'')) new_container ex_Logger
        (PArr [])))) = 1
   \<and> fst (make 4 (example_env (VStr ''d'')) new_container ex_Service (PArr []))
     = Inr (VObj 0 ex_Service [VStr ''d''])
   \<and> length (with_frames (snd (make 4 (example_env (VStr ''d'')) new_container ex_Service
        (PArr [])))) = 1
   \<and> length (buildStack (snd (make 4 (example_env (VStr ''d'')) new_container ex_Service
        (PArr [])))) = 1
   \<and> length (with_frames new_container) = 0 \<and> length (buildStack new_container) = 0"
  by (simp add: ex_make_Logger ex_make_Service) (simp add: new_container_def)

text \<open>
  User code that catches a fault has the same effect: the factory \<open>2\<close> catches the
  fault of the \<open>make(Logger)\<close> it calls, so \<open>make(Clock)\<close> returns \<open>null\<close>, and the frame
  of the failed call stays on the override stack.
\<close>

lemma factory_catches_fault:
  "make 4 (example_env VNull) ex_catching ex_Clock (PArr [])
     = (Inr VNull,
        ex_catching\<lparr>with_frames := [PArr []], resolved_map := [ex_Clock \<mapsto> True],
           thrown := 2\<rparr>)"
  by (simp add: eval_nat_numeral run_defs ex_defs ex_catching_def)

text \<open>
  C1, amended: after a call of \<open>make\<close> the two stacks are the stacks from before the call
  followed by what the call left on them, whether it returned or threw. They are the
  stacks from before the call whenever no call of \<open>make\<close> or \<open>build\<close> has thrown in its
  course (the call itself, the calls nested in it, and the calls that factories,
  extenders and callbacks make and whose faults they catch); the call then returns a
  value. Only a throw leaves frames behind: nothing pops them on the way out.
\<close>

theorem make_keeps_stacks:
  assumes "make n env s abstract parameters = (r, t)"
  shows "(\<exists>ws. with_frames t = with_frames s @ ws) \<and> (\<exists>bs. buildStack t = buildStack s @ bs)
       \<and> thrown s \<le> thrown t
       \<and> (thrown t = thrown s \<longrightarrow>
            returned r \<and> with_frames t = with_frames s \<and> buildStack t = buildStack s)"
proof -
  have "call_kept s (make n env s abstract parameters)"
    using kept_container_methods[of n env] by (simp add: make_def methods_kept_def)
  then show ?thesis using assms by (auto simp: call_kept_def stacks_kept_def)
qed

theorem make_keeps_stacks_witness:
  "make 2 (example_env VNull) new_container ex_Clock (PArr [])
     = (Inr (VObj 0 ex_Clock []),
        new_container\<lparr>resolved_map := [ex_Clock \<mapsto> True], next_id := 1\<rparr>)
   \<and> thrown (new_container\<lparr>resolved_map := [ex_Clock \<mapsto> True], next_id := 1\<rparr>)
       = thrown new_container
   \<and> with_frames (new_container\<lparr>resolved_map := [ex_Clock \<mapsto> True], next_id := 1\<rparr>)
       = with_frames new_container
   \<and> buildStack (new_container\<lparr>resolved_map := [ex_Clock \<mapsto> True], next_id := 1\<rparr>)
       = buildStack new_container"
proof -
  have m: "make 2 (example_env VNull) new_container ex_Clock (PArr [])
     = (Inr (VObj 0 ex_Clock []),
        new_container\<lparr>resolved_map := [ex_Clock \<mapsto> True], next_id := 1\<rparr>)"
    by (simp add: eval_nat_numeral run_defs ex_defs)
  show ?thesis
    using make_keeps_stacks[OF m] m by simp
qed

section \<open>Objects built by reflection\<close>






lemma sc_next_id_mono: "step_closed next_id_mono"
  by (simp add: step_closed_def next_id_mono_def)

lemma cc_next_id_mono: "cache_closed next_id_mono"
  by (simp add: cache_closed_def next_id_mono_def)


lemma make_next_id_mono: "make n env s a p = (r, t) \<Longrightarrow> next_id s \<le> next_id t"
  using rel_make[OF sc_next_id_mono cc_next_id_mono, of s n env a p]
  by (simp add: next_id_mono_def)












section \<open>Rebinding\<close>






lemma make_reboundCallbacks:
  "make n env s a p = (r, t) \<Longrightarrow> getReboundCallbacks t x = getReboundCallbacks s x"
  using make_same_registries[of s n env a p]
  by (simp add: same_registries_def getReboundCallbacks_def)

text \<open>\<open>rebinding(A, cb)\<close> puts \<open>cb\<close> behind the callbacks registered for \<open>A\<close>.\<close>

lemma rebinding_registers:
  assumes "aliases s A = None"
  shows "getReboundCallbacks (snd (rebinding (Suc n) env s A callback)) A
           = getReboundCallbacks s A @ [callback]"
proof -
  let ?s1 = "s\<lparr>reboundCallbacks := (reboundCallbacks s)(A \<mapsto>
                        (case reboundCallbacks s A of
                           Some callbacks \<Rightarrow> callbacks @ [callback]
                         | None \<Rightarrow> [callback]))\<rparr>"
  have 1: "getReboundCallbacks ?s1 A = getReboundCallbacks s A @ [callback]"
    by (simp add: getReboundCallbacks_def split: option.splits)
  obtain r t where m: "make (Suc n) env ?s1 A (PArr []) = (r, t)"
    by (cases "make (Suc n) env ?s1 A (PArr [])")
  have 2: "getReboundCallbacks t A = getReboundCallbacks ?s1 A"
    by (rule make_reboundCallbacks[OF m])
  show ?thesis using assms 1 2 m by (simp add: rebinding_def Let_def)
qed









section \<open>Singletons\<close>



lemma ex_make_Service_fails:
  "make 4 (example_env VNull) ex_contextual ex_Service (PArr [])
     = (Inl (BindingResolutionError (UnresolvablePrimitive ''dsn'')), ex_leaked)"
  by (simp add: eval_nat_numeral run_defs ex_defs ex_contextual_def ex_leaked_def)




end
